theory Spec2Isabelle
  imports Complex_Main "HOL-Library.Word" "HOL-Library.Signed_Division"
begin

unbundle bit_operations_syntax

section \<open>Machine types\<close>

type_synonym u8 = "8 word"
type_synonym u32 = "32 word"
type_synonym u64 = "64 word"

text \<open>
  Traps of the C program that a model function can run into.  A function that may also
  loop forever returns an \<open>option\<close> around this: \<open>None\<close> is "does not return".
\<close>

datatype error = DivideByZero | OutOfBounds

section \<open>The data index and the read side of transform.c\<close>

text \<open>
  \<open>struct data_index\<close>: one entry per major block.  The fields have fixed widths on
  disk, so they are words; a \<open>duration\<close> of zero marks a block never written.
\<close>

record data_index =
  timestamp :: u64
  duration :: u32
  id_zero :: u32

text \<open>
  The fields of \<open>struct disk_header\<close> that transform.c reads.  They are
  \<open>unsigned int\<close> in the source; block numbers and counts are modelled as \<open>nat\<close>
  (they stay far below \<open>2 ^ 32\<close>, so no index expression wraps), and are converted
  to words where the source computes with them in fixed width.
\<close>

record disk_header =
  major_block_count :: nat
  current_major_block :: nat
  major_sample_count :: nat
  first_decimation_log2 :: nat
  second_decimation_log2 :: nat
  dd_total_count :: nat
  dd_sample_count :: nat
  major_block_size :: nat
  major_data_start :: nat
  archive_mask :: "u8 list"
  last_duration :: nat

definition MAX_DELTA_T :: int where
  "MAX_DELTA_T = 1000"

definition INDEX_SKIP :: nat where
  "INDEX_SKIP = 2"

text \<open>
  The midpoint of \<open>binary_search\<close>: the plain average when the interval does not wrap,
  the average of the unwrapped interval reduced modulo \<open>N\<close> otherwise.
\<close>

definition search_mid :: "nat \<Rightarrow> nat \<Rightarrow> nat \<Rightarrow> nat" where
  "search_mid N low high =
     (if low < high then (low + high) div 2 else ((low + high + N) div 2) mod N)"

text \<open>
  The \<open>while\<close> loop of \<open>binary_search\<close>.  Nothing in the loop itself bounds the
  number of iterations, so it is a partial function: \<open>None\<close> means the loop does not
  return.  It returns the final \<open>(low, high)\<close>.
\<close>

partial_function (option) binary_search_loop ::
  "nat \<Rightarrow> data_index list \<Rightarrow> u64 \<Rightarrow> nat \<Rightarrow> nat \<Rightarrow> (nat \<times> nat) option" where
  "binary_search_loop N index ts low high =
     (if (low + 1) mod N \<noteq> high then
        (if ts < timestamp (index ! search_mid N low high)
         then binary_search_loop N index ts low (search_mid N low high)
         else binary_search_loop N index ts (search_mid N low high) high)
      else Some (low, high))"

declare binary_search_loop.simps [code]

text \<open>
  \<open>binary_search\<close>.  Every \<open>% N\<close> of the source traps when \<open>major_block_count\<close> is
  zero; \<open>N\<close> does not change, so the model checks it once.
\<close>

definition binary_search :: "disk_header \<Rightarrow> data_index list \<Rightarrow> u64 \<Rightarrow> (error + nat) option" where
  "binary_search header index ts =
     (let N = major_block_count header;
          current = current_major_block header
      in if N = 0 then Some (Inl DivideByZero)
         else
           (case binary_search_loop N index ts ((current + 1 + INDEX_SKIP) mod N) current of
              None \<Rightarrow> None
            | Some (low, high) \<Rightarrow>
                Some (Inr (if duration (index ! low) = 0 then high else low))))"

text \<open>
  \<open>timestamp_to_block\<close>: the block and the offset into it.  The subtraction and the
  product are 64-bit, \<open>duration\<close> and \<open>block_size\<close> are promoted to 64 bits, the
  quotient is stored into an \<open>unsigned int\<close>.  The division and the remainder trap on
  a zero divisor.
\<close>

definition timestamp_to_block ::
  "disk_header \<Rightarrow> data_index list \<Rightarrow> u64 \<Rightarrow> bool \<Rightarrow> (error + nat \<times> u32) option" where
  "timestamp_to_block header index ts skip_gap =
     (case binary_search header index ts of
        None \<Rightarrow> None
      | Some (Inl e) \<Rightarrow> Some (Inl e)
      | Some (Inr block) \<Rightarrow>
          (let block_start = timestamp (index ! block);
               dur = duration (index ! block);
               block_size = (of_nat (major_sample_count header) :: u32)
           in if ts < block_start then Some (Inr (block, 0))
              else if ts - block_start < ucast dur then
                (if (ucast dur :: u64) = 0 then Some (Inl DivideByZero)
                 else Some (Inr (block,
                        ucast ((ts - block_start) * ucast block_size div ucast dur))))
              else if skip_gap then
                (if major_block_count header = 0 then Some (Inl DivideByZero)
                 else Some (Inr ((block + 1) mod major_block_count header, 0)))
              else Some (Inr (block, block_size - 1))))"

text \<open>
  The loop of \<open>find_gap\<close>.  \<open>ts\<close> and \<open>idz\<close> are the timestamp and the \<open>id_zero\<close>
  expected of the next block; \<open>delta_t\<close> is the 64-bit difference read as signed.
  The result is the answer with the updated \<open>*start\<close> and \<open>*blocks\<close>.
\<close>

function find_gap_loop ::
  "disk_header \<Rightarrow> data_index list \<Rightarrow> bool \<Rightarrow> u64 \<Rightarrow> u32 \<Rightarrow> nat \<Rightarrow> nat \<Rightarrow> bool \<times> nat \<times> nat" where
  "find_gap_loop header index check_id0 ts idz start blocks =
     (if 1 < blocks then
        (let start' = (if start + 1 = major_block_count header then 0 else start + 1);
             ix = index ! start';
             delta_t = sint (timestamp ix - ts)
         in if (check_id0 \<and> id_zero ix \<noteq> idz) \<or>
               delta_t < - MAX_DELTA_T \<or> MAX_DELTA_T < delta_t
            then (True, start', blocks - 1)
            else find_gap_loop header index check_id0
                   (timestamp ix + ucast (duration ix))
                   (id_zero ix + of_nat (major_sample_count header))
                   start' (blocks - 1))
      else (False, start, blocks))"
  by pat_completeness auto
termination
  by (relation "measure (\<lambda>(header, index, check_id0, ts, idz, start, blocks). blocks)") auto

definition find_gap ::
  "disk_header \<Rightarrow> data_index list \<Rightarrow> bool \<Rightarrow> nat \<Rightarrow> nat \<Rightarrow> bool \<times> nat \<times> nat" where
  "find_gap header index check_id0 start blocks =
     (let ix = index ! start
      in find_gap_loop header index check_id0
           (timestamp ix + ucast (duration ix))
           (id_zero ix + of_nat (major_sample_count header))
           start blocks)"

text \<open>
  The \<open>j\<close>-th block of the range \<open>binary_search\<close> works on: the range starts
  \<open>1 + INDEX_SKIP\<close> blocks after the current block and runs, modulo the block count,
  up to the current block.
\<close>

definition range_block :: "disk_header \<Rightarrow> nat \<Rightarrow> nat" where
  "range_block header j =
     (current_major_block header + 1 + INDEX_SKIP + j) mod major_block_count header"

text \<open>The test the loop of \<open>find_gap\<close> applies to a block and its predecessor.\<close>

definition gap_test :: "disk_header \<Rightarrow> bool \<Rightarrow> data_index \<Rightarrow> data_index \<Rightarrow> bool" where
  "gap_test header check_id0 prev nxt \<longleftrightarrow>
     (check_id0 \<and> id_zero nxt \<noteq> id_zero prev + of_nat (major_sample_count header)) \<or>
     sint (timestamp nxt - (timestamp prev + ucast (duration prev))) < - MAX_DELTA_T \<or>
     MAX_DELTA_T < sint (timestamp nxt - (timestamp prev + ucast (duration prev)))"

declare find_gap_loop.simps [simp del]

section \<open>The header operations of the disk writer\<close>

text \<open>
  \<open>struct block_record\<close>, one contiguous archive segment: seconds are 64-bit unsigned,
  offsets are \<open>off64_t\<close> (signed; \<open>- 1\<close> marks a stop offset not yet written).
\<close>

record block_record =
  start_sec :: u64
  stop_sec :: u64
  start_offset :: int
  stop_offset :: int

text \<open>
  The fields of the writer's \<open>struct disk_header\<close> that the header operations touch:
  \<open>header.h.block_count\<close>, \<open>header.h.disk_status\<close>, \<open>header.h.write_backlog\<close> and the
  array \<open>header.blocks\<close> of \<open>MAX_HEADER_BLOCKS\<close> records.
\<close>

record writer_header =
  block_count :: nat
  disk_status :: nat
  write_backlog :: int
  h_blocks :: "block_record list"

text \<open>The static variables of disk\_writer.c; \<open>header_mmap\<close> is the mapped file header.\<close>

record writer_state =
  w_header :: writer_header
  header_mmap :: writer_header
  write_offset :: int
  old_write_offset :: int
  max_backlog :: int
  data_size :: int

definition expired :: "writer_state \<Rightarrow> int \<Rightarrow> bool" where
  "expired s offset =
     (if write_offset s \<ge> old_write_offset s
      then old_write_offset s < offset \<and> offset \<le> write_offset s
      else offset \<le> write_offset s \<or> old_write_offset s < offset)"

text \<open>
  The \<open>while\<close> loop of \<open>expire_archive_blocks\<close> on \<open>header.h.block_count\<close>; reading
  \<open>header.blocks\<close> outside the array is the error \<open>OutOfBounds\<close>.
\<close>

function expire_loop :: "writer_state \<Rightarrow> nat \<Rightarrow> error + nat" where
  "expire_loop s count =
     (if 1 < count then
        (if length (h_blocks (w_header s)) \<le> count - 1 then Inl OutOfBounds
         else if expired s (stop_offset (h_blocks (w_header s) ! (count - 1)))
           then expire_loop s (count - 1)
         else Inr count)
      else Inr count)"
  by pat_completeness auto
termination
  by (relation "measure (\<lambda>(s, count). count)") auto

declare expire_loop.simps [simp del]

definition expire_archive_blocks :: "writer_state \<Rightarrow> error + writer_state" where
  "expire_archive_blocks s =
     (case expire_loop s (block_count (w_header s)) of
        Inl e \<Rightarrow> Inl e
      | Inr count \<Rightarrow>
          (let bs = h_blocks (w_header s) in
           if count = 0 \<or> length bs \<le> count - 1 then Inl OutOfBounds
           else
             (let old_start = start_offset (bs ! (count - 1));
                  bs' = (if expired s old_start \<or> old_start = old_write_offset s
                         then bs [count - 1 := (bs ! (count - 1)) \<lparr>start_offset := write_offset s\<rparr>]
                         else bs)
              in Inr (s \<lparr>w_header := (w_header s) \<lparr>block_count := count, h_blocks := bs'\<rparr>,
                        old_write_offset := write_offset s\<rparr>))))"

text \<open>
  \<open>start_archive_block\<close>: \<open>memmove\<close> pushes the first \<open>MAX_HEADER_BLOCKS - 1\<close> records
  down by one, the count is incremented and capped, and the first record is filled in.
  \<open>MAX_HEADER_BLOCKS\<close> (from disk.h) and the clock reading \<open>now\<close> are parameters.
\<close>

definition start_archive_block :: "nat \<Rightarrow> u64 \<Rightarrow> writer_state \<Rightarrow> writer_state" where
  "start_archive_block MAX_HEADER_BLOCKS now s =
     (let h = w_header s;
          count = block_count h + 1;
          count' = (if count > MAX_HEADER_BLOCKS then MAX_HEADER_BLOCKS else count);
          fresh = \<lparr>start_sec = now, stop_sec = now,
                   start_offset = write_offset s, stop_offset = - 1\<rparr>
      in s \<lparr>w_header := h \<lparr>block_count := count', disk_status := 1,
                h_blocks := fresh # take (MAX_HEADER_BLOCKS - 1) (h_blocks h)\<rparr>\<rparr>)"

definition update_backlog :: "int \<Rightarrow> writer_state \<Rightarrow> writer_state" where
  "update_backlog backlog s =
     (if backlog > max_backlog s then s \<lparr>max_backlog := backlog\<rparr> else s)"

definition write_header :: "writer_state \<Rightarrow> writer_state" where
  "write_header s = s \<lparr>header_mmap := w_header s\<rparr>"

definition update_header :: "bool \<Rightarrow> u64 \<Rightarrow> writer_state \<Rightarrow> error + writer_state" where
  "update_header force_write now s =
     (case expire_archive_blocks s of
        Inl e \<Rightarrow> Inl e
      | Inr s1 \<Rightarrow>
          (case h_blocks (w_header s1) of
             [] \<Rightarrow> Inl OutOfBounds
           | b0 # rest \<Rightarrow>
               if force_write \<or> now \<noteq> stop_sec b0 then
                 Inr (write_header
                   (s1 \<lparr>w_header := (w_header s1)
                          \<lparr>write_backlog := max_backlog s1,
                           h_blocks := b0 \<lparr>stop_sec := now, stop_offset := write_offset s1\<rparr> # rest\<rparr>,
                        max_backlog := 0\<rparr>))
               else Inr s1))"

definition close_header :: "u64 \<Rightarrow> writer_state \<Rightarrow> error + writer_state" where
  "close_header now s =
     update_header True now (s \<lparr>w_header := (w_header s) \<lparr>disk_status := 0\<rparr>\<rparr>)"

text \<open>
  The steps \<open>writer_thread\<close> and \<open>terminate_disk_writer\<close> take on the header once the
  first block has arrived: a block written (the write offset advances by the block
  size and wraps at \<open>data_size\<close>, then \<open>update_header (false)\<close>), a gap seen while
  archiving (\<open>update_header (true)\<close>, and \<open>start_archive_block\<close> when data returns), a
  backlog reading, and the final \<open>close_header\<close>.
\<close>

datatype writer_event =
    Start_block u64
  | Write_block int u64
  | Begin_gap u64
  | Backlog int
  | Close u64

fun writer_step :: "nat \<Rightarrow> writer_event \<Rightarrow> writer_state \<Rightarrow> error + writer_state" where
  "writer_step M (Start_block now) s = Inr (start_archive_block M now s)"
| "writer_step M (Write_block fa_block_size now) s =
     (let off = write_offset s + fa_block_size
      in update_header False now (s \<lparr>write_offset := (if off \<ge> data_size s then 0 else off)\<rparr>))"
| "writer_step M (Begin_gap now) s = update_header True now s"
| "writer_step M (Backlog backlog) s = Inr (update_backlog backlog s)"
| "writer_step M (Close now) s = close_header now s"

fun writer_steps :: "nat \<Rightarrow> writer_event list \<Rightarrow> writer_state \<Rightarrow> error + writer_state" where
  "writer_steps M [] s = Inr s"
| "writer_steps M (x # xs) s =
     (case writer_step M x s of Inl e \<Rightarrow> Inl e | Inr s' \<Rightarrow> writer_steps M xs s')"

definition count_ok :: "nat \<Rightarrow> writer_state \<Rightarrow> bool" where
  "count_ok M s \<longleftrightarrow>
     1 \<le> block_count (w_header s) \<and> block_count (w_header s) \<le> M \<and>
     length (h_blocks (w_header s)) = M"

section \<open>Filter masks (mask.c)\<close>

text \<open>
  \<open>struct filter_mask\<close> is an array of bytes, \<open>uint8_t mask[]\<close>; a mask is the list of
  its bytes.

  Modelled from the spec: mask.h, with \<open>test_mask_bit\<close> and \<open>set_mask_bit\<close>, is not
  among the sources.  The spec lists "test/set bit" on a bitset over the ids; the
  byte layout is the one \<open>parse_raw_mask\<close> and \<open>format_raw_mask\<close> use: id \<open>i\<close> is bit
  \<open>i mod 8\<close> of byte \<open>i div 8\<close>.
\<close>

definition test_mask_bit :: "u8 list \<Rightarrow> nat \<Rightarrow> bool" where
  "test_mask_bit fmask i = bit (fmask ! (i div 8)) (i mod 8)"

definition set_mask_bit :: "u8 list \<Rightarrow> nat \<Rightarrow> u8 list" where
  "set_mask_bit fmask i = fmask [i div 8 := (fmask ! (i div 8)) OR push_bit (i mod 8) 1]"

definition count_mask_bits :: "u8 list \<Rightarrow> nat \<Rightarrow> nat" where
  "count_mask_bits fmask fa_entry_count =
     length (filter (test_mask_bit fmask) [0 ..< fa_entry_count])"

text \<open>\<open>sprintf ("%02X", byte)\<close>: two upper-case hexadecimal digits.\<close>

definition hex_digit :: "nat \<Rightarrow> char" where
  "hex_digit n = ''0123456789ABCDEF'' ! n"

definition hex_byte :: "u8 \<Rightarrow> string" where
  "hex_byte b = [hex_digit (unat b div 16), hex_digit (unat b mod 16)]"

text \<open>
  The loop of \<open>format_raw_mask\<close>, \<open>i\<close> counting down from \<open>fa_entry_count / 8\<close>: each
  round prints \<open>mask[i - 1]\<close>.
\<close>

fun format_raw_loop :: "u8 list \<Rightarrow> nat \<Rightarrow> string" where
  "format_raw_loop fmask 0 = []"
| "format_raw_loop fmask (Suc i) = hex_byte (fmask ! i) @ format_raw_loop fmask i"

text \<open>
  \<open>format_raw_mask\<close>: the text written and the \<open>unsigned int\<close> returned, which is
  \<open>4 * fa_entry_count\<close> in the source.
\<close>

definition format_raw_mask :: "u8 list \<Rightarrow> nat \<Rightarrow> string \<times> u32" where
  "format_raw_mask fmask fa_entry_count =
     (format_raw_loop fmask (fa_entry_count div 8), 4 * of_nat fa_entry_count)"

text \<open>
  Modelled from the spec: parse.h, with \<open>parse_uint\<close> and \<open>read_char\<close>, is not among
  the sources.  The spec's grammar has ids in decimal: \<open>parse_uint\<close> reads the longest
  run of decimal digits and fails when there is none; \<open>read_char\<close> consumes the given
  character when it is next.  Both return whether they succeeded and the rest of the
  string.
\<close>

definition is_digit :: "char \<Rightarrow> bool" where
  "is_digit ch \<longleftrightarrow>
     (of_char CHR ''0'' :: nat) \<le> of_char ch \<and> (of_char ch :: nat) \<le> of_char CHR ''9''"

definition digit_value :: "char \<Rightarrow> nat" where
  "digit_value ch = of_char ch - of_char CHR ''0''"

definition parse_uint :: "string \<Rightarrow> bool \<times> nat \<times> string" where
  "parse_uint s =
     (takeWhile is_digit s \<noteq> [],
      foldl (\<lambda>n ch. 10 * n + digit_value ch) 0 (takeWhile is_digit s),
      dropWhile is_digit s)"

definition read_char :: "string \<Rightarrow> char \<Rightarrow> bool \<times> string" where
  "read_char s ch = (case s of [] \<Rightarrow> (False, s) | c # rest \<Rightarrow> if c = ch then (True, rest) else (False, s))"

definition parse_id :: "string \<Rightarrow> nat \<Rightarrow> bool \<times> nat \<times> string" where
  "parse_id s fa_entry_count =
     (case parse_uint s of (ok, i, rest) \<Rightarrow> (ok \<and> i < fa_entry_count, i, rest))"

text \<open>
  The hexadecimal digit of \<open>parse_raw_mask\<close>; a string that ends early yields its
  terminating NUL, which is no digit.
\<close>

definition nibble_of :: "char \<Rightarrow> nat option" where
  "nibble_of ch =
     (let c = (of_char ch :: nat) in
      if of_char CHR ''0'' \<le> c \<and> c \<le> of_char CHR ''9'' then Some (c - of_char CHR ''0'')
      else if of_char CHR ''A'' \<le> c \<and> c \<le> of_char CHR ''F'' then Some (c - of_char CHR ''A'' + 10)
      else None)"

text \<open>
  The loop of \<open>parse_raw_mask\<close>; \<open>Suc i\<close> is the counter before \<open>i -= 1\<close>.  The result
  is the success flag, the rest of the string and the mask.
\<close>

fun parse_raw_loop :: "nat \<Rightarrow> string \<Rightarrow> u8 list \<Rightarrow> bool \<times> string \<times> u8 list" where
  "parse_raw_loop 0 s fmask = (True, s, fmask)"
| "parse_raw_loop (Suc i) [] fmask = (False, [], fmask)"
| "parse_raw_loop (Suc i) (ch # rest) fmask =
     (case nibble_of ch of
        None \<Rightarrow> (False, rest, fmask)
      | Some nibble \<Rightarrow>
          parse_raw_loop i rest
            (fmask [i div 2 := (fmask ! (i div 2)) OR of_nat (push_bit (4 * (i mod 2)) nibble)]))"

definition parse_raw_mask :: "string \<Rightarrow> nat \<Rightarrow> u8 list \<Rightarrow> bool \<times> string \<times> u8 list" where
  "parse_raw_mask s fa_entry_count fmask = parse_raw_loop (fa_entry_count div 4) s fmask"

text \<open>The loop \<open>for (i = id; ok && i <= end_id; i ++) set_mask_bit (mask, i)\<close>.\<close>

function set_mask_range :: "u8 list \<Rightarrow> nat \<Rightarrow> nat \<Rightarrow> u8 list" where
  "set_mask_range fmask i end_id =
     (if i \<le> end_id then set_mask_range (set_mask_bit fmask i) (i + 1) end_id else fmask)"
  by pat_completeness auto
termination
  by (relation "measure (\<lambda>(fmask, i, end_id). end_id + 1 - i)") auto

declare set_mask_range.simps [simp del]

text \<open>One round of the \<open>do\<close> loop of \<open>parse_mask\<close>: an id or a range of ids.\<close>

definition parse_range :: "string \<Rightarrow> nat \<Rightarrow> u8 list \<Rightarrow> bool \<times> string \<times> u8 list" where
  "parse_range s fa_entry_count fmask =
     (let (ok, i, s1) = parse_id s fa_entry_count in
      if \<not> ok then (False, s1, fmask)
      else
        (let (dash, s2) = read_char s1 CHR ''-'' in
         if \<not> dash then (True, s2, set_mask_range fmask i i)
         else
           (let (ok2, end_id, s3) = parse_id s2 fa_entry_count in
            if ok2 \<and> i \<le> end_id then (True, s3, set_mask_range fmask i end_id)
            else (False, s3, fmask))))"

lemma parse_uint_shorter:
  "parse_uint s = (True, i, rest) \<Longrightarrow> length rest < length s"
proof -
  assume a: "parse_uint s = (True, i, rest)"
  then have "takeWhile is_digit s \<noteq> []" "rest = dropWhile is_digit s"
    by (simp_all add: parse_uint_def)
  moreover have "length (takeWhile is_digit s) + length (dropWhile is_digit s) = length s"
    by (metis length_append takeWhile_dropWhile_id)
  ultimately show ?thesis by (cases "takeWhile is_digit s") auto
qed

lemma parse_uint_not_longer:
  "parse_uint s = (ok, i, rest) \<Longrightarrow> length rest \<le> length s"
  by (auto simp: parse_uint_def length_dropWhile_le)

lemma read_char_not_longer:
  "read_char s ch = (ok, rest) \<Longrightarrow> length rest \<le> length s"
  by (auto simp: read_char_def split: list.splits if_splits)

lemma parse_range_shorter:
  assumes "parse_range s n fmask = (True, rest, fmask')"
  shows "length rest < length s"
proof -
  obtain ok i s1 where p1: "parse_uint s = (ok, i, s1)" by (cases "parse_uint s") auto
  obtain ok2 s2 where r: "read_char s1 CHR ''-'' = (ok2, s2)" by (cases "read_char s1 CHR ''-''") auto
  obtain ok3 e s3 where p2: "parse_uint s2 = (ok3, e, s3)" by (cases "parse_uint s2") auto
  from assms p1 have ok: "ok"
    by (auto simp: parse_range_def parse_id_def Let_def split: if_splits prod.splits)
  have l1: "length s1 < length s" using p1 ok parse_uint_shorter by simp
  have l2: "length s2 \<le> length s1" using r by (rule read_char_not_longer)
  have l3: "length s3 \<le> length s2" using p2 by (rule parse_uint_not_longer)
  from assms p1 r p2 ok have "rest = s2 \<or> rest = s3"
    by (auto simp: parse_range_def parse_id_def Let_def split: if_splits prod.splits)
  with l1 l2 l3 show ?thesis by auto
qed

text \<open>
  The \<open>do \<dots> while (ok && read_char (string, ','))\<close> loop of \<open>parse_mask\<close>.
\<close>

function parse_ranges :: "string \<Rightarrow> nat \<Rightarrow> u8 list \<Rightarrow> bool \<times> string \<times> u8 list" where
  "parse_ranges s fa_entry_count fmask =
     (let r = parse_range s fa_entry_count fmask in
      if fst r \<and> fst (read_char (fst (snd r)) CHR '','')
      then parse_ranges (snd (read_char (fst (snd r)) CHR '','')) fa_entry_count (snd (snd r))
      else r)"
  by pat_completeness auto
termination
proof (relation "measure (\<lambda>(s, n, fmask). length s)")
  show "wf (measure (\<lambda>(s, n, fmask). length s))" by simp
next
  fix s :: string and fa_entry_count :: nat and fmask :: "u8 list" and r
  assume r: "r = parse_range s fa_entry_count fmask"
    and c: "fst r \<and> fst (read_char (fst (snd r)) CHR '','')"
  obtain rest fmask' where p: "parse_range s fa_entry_count fmask = (True, rest, fmask')"
    using r c by (cases "parse_range s fa_entry_count fmask") auto
  have "length rest < length s" using p by (rule parse_range_shorter)
  moreover have "length (snd (read_char rest CHR '','')) \<le> length rest"
    by (cases "read_char rest CHR '',''") (auto dest: read_char_not_longer)
  ultimately show "((snd (read_char (fst (snd r)) CHR '',''), fa_entry_count, snd (snd r)),
      (s, fa_entry_count, fmask)) \<in> measure (\<lambda>(s, n, fmask). length s)"
    using r p by simp
qed

declare parse_ranges.simps [simp del]

text \<open>
  \<open>parse_mask\<close>: \<open>memset\<close> clears the whole mask, then the raw or the list form is
  read.  The mask given is the storage to be filled; only its size matters.
\<close>

definition parse_mask :: "string \<Rightarrow> nat \<Rightarrow> u8 list \<Rightarrow> bool \<times> string \<times> u8 list" where
  "parse_mask s fa_entry_count fmask =
     (case read_char s CHR ''R'' of
        (True, rest) \<Rightarrow> parse_raw_mask rest fa_entry_count (replicate (length fmask) 0)
      | (False, rest) \<Rightarrow> parse_ranges rest fa_entry_count (replicate (length fmask) 0))"

text \<open>
  \<open>sprintf (buffer, "%d", value)\<close> for an \<open>unsigned int\<close> value: the decimal digits,
  read as a signed 32-bit number.
\<close>

definition digit_char :: "nat \<Rightarrow> char" where
  "digit_char n = char_of (of_char CHR ''0'' + n)"

function decimal :: "nat \<Rightarrow> string" where
  "decimal n = (if n < 10 then [digit_char n] else decimal (n div 10) @ [digit_char (n mod 10)])"
  by pat_completeness auto
termination
  by (relation "measure id") auto

declare decimal.simps [simp del]

definition format_d :: "u32 \<Rightarrow> string" where
  "format_d v =
     (if 0 \<le> sint v then decimal (nat (sint v)) else CHR ''-'' # decimal (nat (- sint v)))"

text \<open>
  The output of \<open>format_readable_mask\<close> is the text written so far and the \<open>length\<close>
  still available.  \<open>write_string\<close> appends a value when it fits with its terminating
  NUL in less than the length left.
\<close>

type_synonym out_buffer = "string \<times> nat"

definition write_string :: "out_buffer \<Rightarrow> string \<Rightarrow> bool \<times> out_buffer" where
  "write_string buf v =
     (case buf of (text, len) \<Rightarrow>
        if length v + 1 < len then (True, (text @ v, len - length v)) else (False, buf))"

definition write_uint :: "out_buffer \<Rightarrow> nat \<Rightarrow> bool \<times> out_buffer" where
  "write_uint buf v = write_string buf (format_d (of_nat v))"

text \<open>
  \<open>write_range\<close>: a comma unless first, the start, and for a proper range a dash and
  the end; the first write that does not fit stops it.
\<close>

definition write_range :: "out_buffer \<Rightarrow> nat \<Rightarrow> nat \<Rightarrow> bool \<Rightarrow> bool \<times> out_buffer" where
  "write_range buf start end_id first =
     (let (ok1, b1) = (if \<not> first then write_string buf '','' else (True, buf)) in
      if \<not> ok1 then (False, b1)
      else
        (let (ok2, b2) = write_uint b1 start in
         if \<not> ok2 then (False, b2)
         else if end_id > start then
           (let (ok3, b3) = write_string b2 ''-'' in
            if \<not> ok3 then (False, b3) else write_uint b3 end_id)
         else (True, b2)))"

text \<open>The local variables of \<open>format_readable_mask\<close>.\<close>

record format_state =
  ok :: bool
  in_range :: bool
  first :: bool
  range_start :: nat
  buffer :: out_buffer

function format_loop :: "u8 list \<Rightarrow> nat \<Rightarrow> nat \<Rightarrow> format_state \<Rightarrow> format_state" where
  "format_loop fmask fa_entry_count i st =
     (if ok st \<and> i < fa_entry_count then
        format_loop fmask fa_entry_count (i + 1)
          (if test_mask_bit fmask i \<and> \<not> in_range st
           then st \<lparr>in_range := True, range_start := i\<rparr>
           else if \<not> test_mask_bit fmask i \<and> in_range st
           then
             (let (r, b) = write_range (buffer st) (range_start st) (i - 1) (first st)
              in st \<lparr>ok := r, in_range := False, first := False, buffer := b\<rparr>)
           else st)
      else st)"
  by pat_completeness auto
termination
  by (relation "measure (\<lambda>(fmask, fa_entry_count, i, st). fa_entry_count - i)") auto

declare format_loop.simps [simp del]

definition format_readable_mask :: "u8 list \<Rightarrow> nat \<Rightarrow> nat \<Rightarrow> bool \<times> string" where
  "format_readable_mask fmask fa_entry_count len =
     (let st = format_loop fmask fa_entry_count 0
                 \<lparr>ok = True, in_range = False, first = True, range_start = 0,
                  buffer = ([], len)\<rparr>
      in if ok st \<and> in_range st then
           (let (r, b) = write_range (buffer st) (range_start st) (fa_entry_count - 1) (first st)
            in (r, fst b))
         else (ok st, fst (buffer st)))"

text \<open>
  \<open>format_mask\<close>: the number returned and the string left in the buffer.  When the
  readable form does not fit, the buffer holds \<open>R\<close> and the raw form, and the number
  returned is the one \<open>format_raw_mask\<close> returns.
\<close>

definition format_mask :: "u8 list \<Rightarrow> nat \<Rightarrow> u32 \<times> string" where
  "format_mask fmask fa_entry_count =
     (case format_readable_mask fmask fa_entry_count (fa_entry_count div 4) of
        (True, text) \<Rightarrow> (of_nat (length text), text)
      | (False, text) \<Rightarrow>
          (case format_raw_mask fmask fa_entry_count of
             (raw, n) \<Rightarrow> (n, CHR ''R'' # raw)))"

subsection \<open>Vocabulary of the round-trip proof\<close>

definition no_digit_next :: "string \<Rightarrow> bool" where
  "no_digit_next s \<longleftrightarrow> (case s of [] \<Rightarrow> True | ch # rest \<Rightarrow> \<not> is_digit ch)"

text \<open>The text of one range and of a comma-separated list of ranges.\<close>

definition render_range :: "nat \<times> nat \<Rightarrow> string" where
  "render_range r = decimal (fst r) @ (if fst r < snd r then CHR ''-'' # decimal (snd r) else [])"

definition render_more :: "(nat \<times> nat) list \<Rightarrow> string" where
  "render_more rs = concat (map (\<lambda>r. CHR '','' # render_range r) rs)"

definition comma_next :: "string \<Rightarrow> bool" where
  "comma_next s \<longleftrightarrow> (case s of [] \<Rightarrow> True | ch # rest \<Rightarrow> ch = CHR '','')"

definition set_ranges :: "u8 list \<Rightarrow> (nat \<times> nat) list \<Rightarrow> u8 list" where
  "set_ranges m rs = foldl (\<lambda>m r. set_mask_range m (fst r) (snd r)) m rs"

definition covers :: "(nat \<times> nat) list \<Rightarrow> nat \<Rightarrow> bool" where
  "covers rs j \<longleftrightarrow> (\<exists>r \<in> set rs. fst r \<le> j \<and> j \<le> snd r)"

text \<open>
  What the loop of \<open>format_readable_mask\<close> maintains while \<open>ok\<close>: the text is the list
  of the ranges closed so far, which with the range still open cover exactly the ids
  below \<open>i\<close> that are set in the mask.
\<close>

definition format_inv :: "u8 list \<Rightarrow> nat \<Rightarrow> format_state \<Rightarrow> bool" where
  "format_inv fmask i st \<longleftrightarrow>
     (ok st \<longrightarrow>
       (\<exists>rs. fst (buffer st) = tl (render_more rs) \<and> (first st \<longleftrightarrow> rs = []) \<and>
          (\<forall>r \<in> set rs. fst r \<le> snd r \<and> snd r < i) \<and>
          (in_range st \<longrightarrow> range_start st < i) \<and>
          (\<forall>j < i. test_mask_bit fmask j \<longleftrightarrow>
                covers rs j \<or> (in_range st \<and> range_start st \<le> j))))"

section \<open>The transform: decimation, index and gaps (transform.c)\<close>

text \<open>
  Fixed-width integer values of the transform are integers with the wrap-around of
  each C operation written out: \<open>s32\<close> and \<open>s64\<close> read the low bits as a signed
  number, \<open>take_bit\<close> reads them as an unsigned one.
\<close>

definition s32 :: "int \<Rightarrow> int" where
  "s32 v = signed_take_bit 31 v"

definition s64 :: "int \<Rightarrow> int" where
  "s64 v = signed_take_bit 63 v"

text \<open>\<open>struct fa_entry\<close>, a pair of \<open>int32_t\<close>, and \<open>struct decimated_data\<close>.\<close>

record fa_entry =
  entry_x :: int
  entry_y :: int

record decimated_data =
  d_min :: fa_entry
  d_max :: fa_entry
  d_mean :: fa_entry
  d_std :: fa_entry

text \<open>
  \<open>struct fa_accum\<close>: 32-bit extrema, 64-bit sums and 128-bit sums of squares.
\<close>

record fa_accum =
  minx :: int
  maxx :: int
  miny :: int
  maxy :: int
  sumx :: int
  sumy :: int
  sum_sq_x :: int
  sum_sq_y :: int

definition INT32_MAX :: int where
  "INT32_MAX = 2147483647"

definition INT32_MIN :: int where
  "INT32_MIN = - 2147483648"

definition initialise_accum :: fa_accum where
  "initialise_accum =
     \<lparr>minx = INT32_MAX, maxx = INT32_MIN, miny = INT32_MAX, maxy = INT32_MIN,
      sumx = 0, sumy = 0, sum_sq_x = 0, sum_sq_y = 0\<rparr>"

text \<open>\<open>accum128_64\<close> and \<open>accum128_128\<close>: addition modulo \<open>2 ^ 128\<close>.\<close>

definition accum128 :: "int \<Rightarrow> int \<Rightarrow> int" where
  "accum128 acc val = take_bit 128 (acc + val)"

definition accum_xy :: "fa_accum \<Rightarrow> fa_entry \<Rightarrow> fa_accum" where
  "accum_xy acc input =
     (let vx = entry_x input; vy = entry_y input in
      \<lparr>minx = (if vx < minx acc then vx else minx acc),
       maxx = (if maxx acc < vx then vx else maxx acc),
       miny = (if vy < miny acc then vy else miny acc),
       maxy = (if maxy acc < vy then vy else maxy acc),
       sumx = s64 (sumx acc + vx),
       sumy = s64 (sumy acc + vy),
       sum_sq_x = accum128 (sum_sq_x acc) (take_bit 64 (s64 (vx * vx))),
       sum_sq_y = accum128 (sum_sq_y acc) (take_bit 64 (s64 (vy * vy)))\<rparr>)"

definition accum_accum :: "fa_accum \<Rightarrow> fa_accum \<Rightarrow> fa_accum" where
  "accum_accum result input =
     \<lparr>minx = (if minx input < minx result then minx input else minx result),
      maxx = (if maxx result < maxx input then maxx input else maxx result),
      miny = (if miny input < miny result then miny input else miny result),
      maxy = (if maxy result < maxy input then maxy input else maxy result),
      sumx = s64 (sumx result + sumx input),
      sumy = s64 (sumy result + sumy input),
      sum_sq_x = accum128 (sum_sq_x result) (sum_sq_x input),
      sum_sq_y = accum128 (sum_sq_y result) (sum_sq_y input)\<rparr>"

text \<open>
  Two computations of transform.c are done in double-precision floating point (the
  program is built with \<open>-ffast-math\<close>) and are parameters of the model:
  \<open>compute_std\<close>, from the shifted sum of squares, the sum and the shift to the
  standard deviation, and the smoothing of \<open>last_duration\<close> in \<open>advance_index\<close>, from
  the new duration and the old \<open>last_duration\<close> to the new one.  \<open>double_ops\<close>, further
  down, gives the two as the source computes them, operation by operation in IEEE
  double precision.
\<close>

record float_ops =
  compute_std :: "int \<Rightarrow> int \<Rightarrow> nat \<Rightarrow> int"
  smooth_duration :: "nat \<Rightarrow> nat \<Rightarrow> nat"

text \<open>\<open>sr128\<close>: the low 64 bits of the accumulator shifted right.\<close>

definition sr128 :: "int \<Rightarrow> nat \<Rightarrow> int" where
  "sr128 acc shift = take_bit 64 (drop_bit shift acc)"

definition compute_result :: "float_ops \<Rightarrow> fa_accum \<Rightarrow> nat \<Rightarrow> decimated_data" where
  "compute_result fp acc shift =
     \<lparr>d_min = \<lparr>entry_x = minx acc, entry_y = miny acc\<rparr>,
      d_max = \<lparr>entry_x = maxx acc, entry_y = maxy acc\<rparr>,
      d_mean = \<lparr>entry_x = s32 (drop_bit shift (sumx acc)),
                entry_y = s32 (drop_bit shift (sumy acc))\<rparr>,
      d_std = \<lparr>entry_x = compute_std fp (sr128 (sum_sq_x acc) shift) (sumx acc) shift,
               entry_y = compute_std fp (sr128 (sum_sq_y acc) shift) (sumy acc) shift\<rparr>\<rparr>"

text \<open>
  \<open>decimate_column_one\<close>: \<open>input i\<close> is the entry the pointer \<open>input\<close> is at in
  round \<open>i\<close> of the loop.  The result is the decimated entry written to \<open>output\<close> and
  the updated double-decimation accumulator.
\<close>

definition decimate_column_one ::
  "float_ops \<Rightarrow> (nat \<Rightarrow> fa_entry) \<Rightarrow> fa_accum \<Rightarrow> nat \<Rightarrow> decimated_data \<times> fa_accum" where
  "decimate_column_one fp input double_accum N_log2 =
     (let accum = foldl (\<lambda>acc i. accum_xy acc (input i)) initialise_accum [0 ..< 2 ^ N_log2]
      in (compute_result fp accum N_log2, accum_accum double_accum accum))"

text \<open>
  A major buffer holds, for each archived id, its \<open>major_sample_count\<close> entries and
  its decimated entries; \<open>fa_data_offset\<close> and \<open>d_data_offset\<close> (disk.h) address the
  entry \<open>offset\<close> of archived id \<open>id\<close>, and the model indexes two arrays by the id and
  the offset instead of computing byte addresses.
\<close>

record major_buffer =
  fa_part :: "fa_entry list list"
  d_part :: "decimated_data list list"

text \<open>
  The static variables of transform.c.  \<open>FA_ENTRY_COUNT\<close> (sniffer.h) is a field, as
  is the list of the writes handed to \<open>schedule_write\<close>: the file offset and the
  buffer contents at the time.
\<close>

record transform_state =
  t_header :: disk_header
  t_index :: "data_index list"
  dd_area :: "decimated_data list"
  FA_ENTRY_COUNT :: nat
  input_frame_count :: nat
  input_decimation_count :: nat
  buffers :: "major_buffer list"
  current_buffer :: nat
  fa_offset :: nat
  d_offset :: nat
  double_accumulators :: "fa_accum list"
  dd_offset :: nat
  output_id_count :: nat
  timestamp_count :: nat
  first_timestamp :: u64
  timestamp_array :: "int list"
  timestamp_index :: nat
  scheduled :: "(nat \<times> major_buffer) list"

definition advance_block :: "transform_state \<Rightarrow> bool \<times> transform_state" where
  "advance_block st =
     (let st' = st \<lparr>fa_offset := fa_offset st + input_frame_count st,
                     d_offset := d_offset st +
                       drop_bit (first_decimation_log2 (t_header st)) (input_frame_count st)\<rparr>
      in (fa_offset st' \<ge> major_sample_count (t_header st), st'))"

definition reset_block :: "transform_state \<Rightarrow> transform_state" where
  "reset_block st = st \<lparr>fa_offset := 0, d_offset := 0\<rparr>"

definition write_major_block :: "transform_state \<Rightarrow> transform_state" where
  "write_major_block st =
     (let offset = major_data_start (t_header st) +
            current_major_block (t_header st) * major_block_size (t_header st)
      in reset_block
           (st \<lparr>scheduled := scheduled st @ [(offset, buffers st ! current_buffer st)],
                current_buffer := 1 - current_buffer st\<rparr>))"

text \<open>Writing a run of values into an array from an offset on.\<close>

definition store_at :: "'a list \<Rightarrow> nat \<Rightarrow> 'a list \<Rightarrow> 'a list" where
  "store_at xs off vs = take off xs @ vs @ drop (off + length vs) xs"

text \<open>
  \<open>transpose_block\<close>: a block is the list of its frames, each a list of
  \<open>FA_ENTRY_COUNT\<close> entries.  The loop runs over the ids with the count \<open>written\<close> of
  archived ids met so far.
\<close>

definition transpose_block :: "fa_entry list list \<Rightarrow> transform_state \<Rightarrow> transform_state" where
  "transpose_block block st =
     (let step = (\<lambda>(buf, written) i.
            if test_mask_bit (archive_mask (t_header st)) i
            then (buf [written := store_at (buf ! written) (fa_offset st)
                         (map (\<lambda>f. block ! f ! i) [0 ..< input_frame_count st])],
                  written + 1)
            else (buf, written));
          cur = buffers st ! current_buffer st;
          fa' = fst (foldl step (fa_part cur, 0) [0 ..< FA_ENTRY_COUNT st])
      in st \<lparr>buffers := (buffers st) [current_buffer st := cur \<lparr>fa_part := fa'\<rparr>]\<rparr>)"

text \<open>
  \<open>decimate_column\<close> for one archived id: the decimated entries of the block's
  column, in order, and the id's double-decimation accumulator after them.
\<close>

definition decimate_column ::
  "float_ops \<Rightarrow> transform_state \<Rightarrow> (nat \<Rightarrow> fa_entry) \<Rightarrow> fa_accum \<Rightarrow> decimated_data list \<times> fa_accum" where
  "decimate_column fp st input double_accum =
     (let log2 = first_decimation_log2 (t_header st) in
      foldl (\<lambda>(out, acc) i.
               (let (d, acc') = decimate_column_one fp (\<lambda>k. input (i * 2 ^ log2 + k)) acc log2
                in (out @ [d], acc')))
        ([], double_accum) [0 ..< input_decimation_count st])"

definition decimate_block ::
  "float_ops \<Rightarrow> fa_entry list list \<Rightarrow> transform_state \<Rightarrow> transform_state" where
  "decimate_block fp block st =
     (let step = (\<lambda>(buf, accs, written) i.
            if test_mask_bit (archive_mask (t_header st)) i
            then
              (let (out, acc') = decimate_column fp st (\<lambda>f. block ! f ! i) (accs ! written)
               in (buf [written := store_at (buf ! written) (d_offset st) out],
                   accs [written := acc'], written + 1))
            else (buf, accs, written));
          cur = buffers st ! current_buffer st;
          r = foldl step (d_part cur, double_accumulators st, 0) [0 ..< FA_ENTRY_COUNT st]
      in st \<lparr>buffers := (buffers st) [current_buffer st := cur \<lparr>d_part := fst r\<rparr>],
             double_accumulators := fst (snd r)\<rparr>)"

text \<open>
  \<open>double_decimate_block\<close>: one double-decimated entry per archived id goes to the
  DD area, the accumulators start again, and the DD write cursor advances modulo
  \<open>dd_total_count\<close>.
\<close>

definition double_decimate_block :: "float_ops \<Rightarrow> transform_state \<Rightarrow> error + transform_state" where
  "double_decimate_block fp st =
     (let h = t_header st;
          decimation_log2 = first_decimation_log2 h + second_decimation_log2 h;
          step = (\<lambda>(area, accs) i.
            (area [dd_offset st + i * dd_total_count h :=
                     compute_result fp (accs ! i) decimation_log2],
             accs [i := initialise_accum]));
          r = foldl step (dd_area st, double_accumulators st) [0 ..< output_id_count st]
      in if dd_total_count h = 0 then Inl DivideByZero
         else Inr (st \<lparr>dd_area := fst r, double_accumulators := snd r,
                       dd_offset := (dd_offset st + 1) mod dd_total_count h\<rparr>))"

text \<open>
  \<open>reset_double_decimation\<close>: the product for \<open>dd_offset\<close> is formed in
  \<open>unsigned int\<close>.
\<close>

definition reset_double_decimation :: "transform_state \<Rightarrow> transform_state" where
  "reset_double_decimation st =
     st \<lparr>dd_offset :=
           (current_major_block (t_header st) * dd_sample_count (t_header st)) mod 2 ^ 32,
         double_accumulators :=
           foldl (\<lambda>accs i. accs [i := initialise_accum]) (double_accumulators st)
             [0 ..< output_id_count st]\<rparr>"

text \<open>
  \<open>index_minor_block\<close>: the first minor block of a major block sets
  \<open>first_timestamp\<close> and the \<open>id_zero\<close> of the current index entry (the \<open>x\<close> of the
  block's first entry); every minor block records its timestamp relative to the first
  as an \<open>int\<close>.
\<close>

definition index_minor_block :: "fa_entry list list \<Rightarrow> u64 \<Rightarrow> transform_state \<Rightarrow> transform_state" where
  "index_minor_block block ts st =
     (let cur = current_major_block (t_header st);
          st1 = (if timestamp_index st = 0
                 then st \<lparr>first_timestamp := ts,
                          t_index := (t_index st)
                            [cur := (t_index st ! cur) \<lparr>id_zero := word_of_int (entry_x (block ! 0 ! 0))\<rparr>]\<rparr>
                 else st)
      in st1 \<lparr>timestamp_array := (timestamp_array st1)
                 [timestamp_index st1 := sint (ucast (ts - first_timestamp st1) :: u32)],
              timestamp_index := timestamp_index st1 + 1\<rparr>)"

text \<open>
  The loop of \<open>advance_index\<close>: \<open>t\<close> is computed in \<open>unsigned int\<close> and stored in an
  \<open>int\<close>, the products and sums are 64-bit signed.  The result is \<open>(sum_x, sum_xt)\<close>.
\<close>

definition fit_sums :: "nat \<Rightarrow> int list \<Rightarrow> int \<times> int" where
  "fit_sums count ts_array =
     foldl (\<lambda>(sum_x, sum_xt) i.
              (let t = s32 (2 * int i - int count + 1);
                   v = ts_array ! i
               in (s64 (sum_x + v), s64 (sum_xt + s64 (v * t)))))
       (0, 0) [0 ..< count]"

text \<open>
  \<open>advance_index\<close>.  \<open>sum_t2\<close> is 64-bit unsigned; the slope \<open>2 * timestamp_count *
  sum_xt\<close> is formed in 64-bit signed arithmetic from a 32-bit unsigned factor and is
  divided as unsigned; the quotient is cut to 32 bits for \<open>duration\<close>.  The divisions
  by \<open>sum_t2\<close> and \<open>timestamp_count\<close> and the remainder by \<open>major_block_count\<close> trap
  on zero.
\<close>

definition advance_index :: "float_ops \<Rightarrow> transform_state \<Rightarrow> error + transform_state" where
  "advance_index fp st =
     (let h = t_header st;
          count = timestamp_count st;
          (sum_x, sum_xt) = fit_sums count (timestamp_array st);
          sum_t2 = take_bit 64 (take_bit 64 (take_bit 64 (int count * int count) - 1) * int count) div 3;
          cur = current_major_block h
      in if sum_t2 = 0 \<or> count = 0 \<or> major_block_count h = 0 then Inl DivideByZero
         else
           (let dur = take_bit 32 (take_bit 64 (s64 (take_bit 32 (2 * int count) * sum_xt)) div sum_t2);
                start = take_bit 64
                  (take_bit 64 (uint (first_timestamp st) + sum_x sdiv int count)
                   - take_bit 64 (s64 (take_bit 32 (int count + 1) * sum_xt)) div sum_t2);
                ix = (t_index st ! cur) \<lparr>duration := word_of_int dur, timestamp := word_of_int start\<rparr>
            in Inr (st \<lparr>t_index := (t_index st) [cur := ix],
                         t_header := h \<lparr>last_duration := smooth_duration fp (nat dur) (last_duration h),
                                        current_major_block := (cur + 1) mod major_block_count h\<rparr>,
                         timestamp_index := 0\<rparr>)))"

definition reset_index :: "transform_state \<Rightarrow> transform_state" where
  "reset_index st = st \<lparr>timestamp_index := 0\<rparr>"

text \<open>
  \<open>process_block\<close>: \<open>None\<close> is the gap sentinel (a null block).
\<close>

definition process_block ::
  "float_ops \<Rightarrow> fa_entry list list option \<Rightarrow> u64 \<Rightarrow> transform_state \<Rightarrow> error + transform_state" where
  "process_block fp block ts st =
     (case block of
        Some b \<Rightarrow>
          (let st1 = decimate_block fp b (transpose_block b (index_minor_block b ts st));
               (must_write, st2) = advance_block st1;
               h = t_header st2;
               decimation = (2 :: nat) ^ (first_decimation_log2 h + second_decimation_log2 h)
           in case (if fa_offset st2 mod decimation = 0 then double_decimate_block fp st2
                    else Inr st2) of
                Inl e \<Rightarrow> Inl e
              | Inr st3 \<Rightarrow>
                  if must_write then advance_index fp (write_major_block st3) else Inr st3)
      | None \<Rightarrow> Inr (reset_double_decimation (reset_index (reset_block st))))"

text \<open>
  Indexing the minor blocks of one major block and completing the index entry:
  \<open>index_minor_block\<close> for each timestamp in turn, then \<open>advance_index\<close>; the result
  is the duration recorded for the block that was current.
\<close>

definition index_major_block ::
  "float_ops \<Rightarrow> fa_entry list list \<Rightarrow> u64 list \<Rightarrow> transform_state \<Rightarrow> error + int" where
  "index_major_block fp block tss st =
     (case advance_index fp (foldl (\<lambda>s ts. index_minor_block block ts s) st tss) of
        Inl e \<Rightarrow> Inl e
      | Inr st' \<Rightarrow> Inr (uint (duration (t_index st' ! current_major_block (t_header st)))))"


text \<open>
  Double precision, as the program computes with it on x86-64: every operation
  yields the exact result rounded to a significand of 53 bits, to nearest with ties
  to even.  A finite double is \<open>m * 2 ^ e\<close> for integers \<open>m\<close> and \<open>e\<close>, and the pair
  \<open>(m, e)\<close> stands for it; the exponent range plays no part, as the values here are
  integers of at most 64 bits, their products and square roots.

  \<open>bit_length a\<close> is the number of binary digits of a positive \<open>a\<close>; \<open>round_even a s\<close>
  is \<open>a / 2 ^ s\<close> rounded to an integer.
\<close>

type_synonym double = "int \<times> int"

function bit_length :: "int \<Rightarrow> nat" where
  "bit_length a = (if a \<le> 0 then 0 else Suc (bit_length (a div 2)))"
  by pat_completeness auto
termination
  by (relation "measure nat") auto

declare bit_length.simps [simp del]

definition round_even :: "int \<Rightarrow> nat \<Rightarrow> int" where
  "round_even a s =
     (let q = a div 2 ^ s; r = a mod 2 ^ s; half = 2 ^ s div 2
      in if s = 0 \<or> r < half \<or> (r = half \<and> even q) then q else q + 1)"

definition round_double :: "double \<Rightarrow> double" where
  "round_double d =
     (let m = fst d; s = bit_length \<bar>m\<bar> - 53
      in (sgn m * round_even \<bar>m\<bar> s, snd d + int s))"

text \<open>
  The conversion of an integer to \<open>double\<close>, and the product, sum and difference of
  two doubles.
\<close>

definition double_of_int :: "int \<Rightarrow> double" where
  "double_of_int v = round_double (v, 0)"

definition double_mul :: "double \<Rightarrow> double \<Rightarrow> double" where
  "double_mul a b = round_double (fst a * fst b, snd a + snd b)"

definition double_add :: "double \<Rightarrow> double \<Rightarrow> double" where
  "double_add a b =
     (let e = min (snd a) (snd b)
      in round_double (fst a * 2 ^ nat (snd a - e) + fst b * 2 ^ nat (snd b - e), e))"

definition double_sub :: "double \<Rightarrow> double \<Rightarrow> double" where
  "double_sub a b = double_add a (- fst b, snd b)"

text \<open>
  \<open>sqrt\<close> of a positive double.  \<open>isqrt\<close> is the integer square root; the significand
  is scaled to at least 110 bits with an even exponent, so that its integer square
  root has more than 53 bits, and whether the root is exact decides a tie.
\<close>

function isqrt :: "int \<Rightarrow> int" where
  "isqrt n =
     (if n < 2 then n
      else (let r = 2 * isqrt (n div 4) in if (r + 1) * (r + 1) \<le> n then r + 1 else r))"
  by pat_completeness auto
termination
  by (relation "measure nat") auto

declare isqrt.simps [simp del]

definition double_sqrt :: "double \<Rightarrow> double" where
  "double_sqrt d =
     (let k0 = 110 - bit_length (fst d);
          k = (if even (snd d - int k0) then k0 else k0 + 1);
          m = fst d * 2 ^ k;
          r = isqrt m;
          s = bit_length r - 53;
          q = r div 2 ^ s;
          rest = r mod 2 ^ s;
          half = 2 ^ s div 2
      in (if rest < half \<or> (rest = half \<and> r * r = m \<and> even q) then q else q + 1,
          (snd d - int k) div 2 + int s))"

text \<open>
  The conversion of a double to an integer type, which drops the fraction, and
  \<open>round\<close>, which rounds to the nearest integer with ties away from zero.
\<close>

definition double_trunc :: "double \<Rightarrow> int" where
  "double_trunc d =
     (if 0 \<le> snd d then fst d * 2 ^ nat (snd d)
      else sgn (fst d) * (\<bar>fst d\<bar> div 2 ^ nat (- snd d)))"

definition double_round :: "double \<Rightarrow> int" where
  "double_round d =
     (if 0 \<le> snd d then fst d * 2 ^ nat (snd d)
      else sgn (fst d) * ((2 * \<bar>fst d\<bar> + 2 ^ nat (- snd d)) div (2 * 2 ^ nat (- snd d))))"

text \<open>
  \<open>compute_std\<close>: \<open>sq\<close> is the value of \<open>sr128 (acc, shift)\<close>, a \<open>uint64_t\<close>, and \<open>sm\<close>
  is \<open>sum\<close>.  The division of \<open>sum\<close> by \<open>(double) (1 << shift)\<close> is exact (the sign of
  the divisor for a shift of 31 does not reach the result).  The cast of the square
  root to \<open>int32_t\<close> drops the fraction; a root of \<open>2 ^ 31\<close> or more, which C leaves
  undefined, yields \<open>INT32_MIN\<close> as on x86.
\<close>

definition compute_std_double :: "int \<Rightarrow> int \<Rightarrow> nat \<Rightarrow> int" where
  "compute_std_double sq sm shift =
     (let mean = (fst (double_of_int sm), snd (double_of_int sm) - int shift);
          var = double_sub (double_of_int sq) (double_mul mean mean);
          root = double_trunc (double_sqrt var)
      in if 0 < fst var then (if root < 2 ^ 31 then root else INT32_MIN) else 0)"

text \<open>
  The smoothing of \<open>last_duration\<close> in \<open>advance_index\<close>:
  \<open>(uint32_t) round (duration * TIMESTAMP_IIR + last_duration * (1 - TIMESTAMP_IIR))\<close>,
  where \<open>TIMESTAMP_IIR\<close> is the double nearest to 0.1.
\<close>

definition TIMESTAMP_IIR :: double where
  "TIMESTAMP_IIR = (3602879701896397, - 55)"

definition smooth_duration_double :: "nat \<Rightarrow> nat \<Rightarrow> nat" where
  "smooth_duration_double dur prev =
     nat (take_bit 32 (double_round
       (double_add (double_mul (double_of_int (int dur)) TIMESTAMP_IIR)
          (double_mul (double_of_int (int prev)) (double_sub (1, 0) TIMESTAMP_IIR)))))"

definition double_ops :: float_ops where
  "double_ops = \<lparr>compute_std = compute_std_double, smooth_duration = smooth_duration_double\<rparr>"


text \<open>
  Timestamps at an even spacing \<open>d\<close> from \<open>t1\<close>, and the two sums of the fit
  for them as exact integers (to be scaled by \<open>d\<close>).
\<close>

definition even_timestamps :: "u64 \<Rightarrow> nat \<Rightarrow> nat \<Rightarrow> u64 list" where
  "even_timestamps t1 d k = map (\<lambda>i. t1 + of_nat (i * d)) [0 ..< k]"


definition sum_i :: "nat \<Rightarrow> int" where
  "sum_i n = (\<Sum>i < n. int i)"

definition sum_it :: "nat \<Rightarrow> nat \<Rightarrow> int" where
  "sum_it k n = (\<Sum>i < n. int i * (2 * int i - int k + 1))"




definition least_squares_slope :: "real list \<Rightarrow> real" where
  "least_squares_slope ts =
     (let k = length ts;
          i_mean = (\<Sum>i < k. real i) / real k;
          t_mean = (\<Sum>i < k. ts ! i) / real k
      in (\<Sum>i < k. (real i - i_mean) * (ts ! i - t_mean))
           / (\<Sum>i < k. (real i - i_mean) * (real i - i_mean)))"


section \<open>Example archive\<close>

text \<open>
  An archive of eight major blocks of 1000 samples.  Blocks 0 to 5 are written, block 6
  is the current one, block 7 has never been written; there is a capture gap between
  blocks 3 and 4.
\<close>

definition example_header :: disk_header where
  "example_header =
     \<lparr>major_block_count = 8, current_major_block = 6, major_sample_count = 1000,
      first_decimation_log2 = 1, second_decimation_log2 = 1, dd_total_count = 16,
      dd_sample_count = 2, major_block_size = 4096, major_data_start = 65536,
      archive_mask = [3, 0], last_duration = 100000\<rparr>"

definition example_index :: "data_index list" where
  "example_index =
     [\<lparr>timestamp = 1000000, duration = 100000, id_zero = 0\<rparr>,
      \<lparr>timestamp = 1100000, duration = 100000, id_zero = 1000\<rparr>,
      \<lparr>timestamp = 1200000, duration = 100000, id_zero = 2000\<rparr>,
      \<lparr>timestamp = 1300000, duration = 100000, id_zero = 3000\<rparr>,
      \<lparr>timestamp = 1900000, duration = 100000, id_zero = 9000\<rparr>,
      \<lparr>timestamp = 2000000, duration = 100000, id_zero = 10000\<rparr>,
      \<lparr>timestamp = 0, duration = 0, id_zero = 0\<rparr>,
      \<lparr>timestamp = 0, duration = 0, id_zero = 0\<rparr>]"

text \<open>
  A writer on a freshly prepared archive of 3000 bytes with room for four segments in
  the header, and a run of the writer: two blocks, a gap, four more blocks (wrapping
  twice), shutdown.
\<close>

definition example_writer :: writer_state where
  "example_writer =
     (let none = \<lparr>start_sec = 0, stop_sec = 0, start_offset = 0, stop_offset = 0\<rparr>;
          h = \<lparr>block_count = 0, disk_status = 0, write_backlog = 0,
               h_blocks = [none, none, none, none]\<rparr>
      in \<lparr>w_header = h, header_mmap = h, write_offset = 0, old_write_offset = 0,
          max_backlog = 0, data_size = 3000\<rparr>)"

definition example_events :: "writer_event list" where
  "example_events =
     [Write_block 1000 10, Backlog 3, Write_block 1000 11, Begin_gap 12, Start_block 20,
      Write_block 1000 20, Write_block 1000 21, Write_block 1000 22, Write_block 1000 23,
      Close 24]"

text \<open>A mask over 64 ids with the ids 0 to 3, 15 and 18 to 20 set.\<close>

definition example_mask :: "u8 list" where
  "example_mask = [0x0F, 0x80, 0x1C, 0, 0, 0, 0, 0]"

definition example_frame :: "int \<Rightarrow> fa_entry list" where
  "example_frame v = map (\<lambda>i. \<lparr>entry_x = v + int i, entry_y = v - int i\<rparr>) [0 ..< 16]"

text \<open>
  A transform on the example archive, with major blocks of four samples arriving in
  minor blocks of one frame of 16 ids, of which ids 0 and 1 are archived.  It is in
  the middle of a major block: one minor block has been taken in.
\<close>

definition example_transform :: transform_state where
  "example_transform =
     (let zero = \<lparr>entry_x = 0, entry_y = 0\<rparr>;
          zero_d = \<lparr>d_min = zero, d_max = zero, d_mean = zero, d_std = zero\<rparr>;
          buf = \<lparr>fa_part = [replicate 4 zero, replicate 4 zero],
                 d_part = [replicate 4 zero_d, replicate 4 zero_d]\<rparr>;
          used = accum_xy initialise_accum \<lparr>entry_x = 7, entry_y = - 7\<rparr>
      in \<lparr>t_header = example_header
            \<lparr>major_sample_count := 4, first_decimation_log2 := 0, second_decimation_log2 := 1,
             dd_total_count := 16, dd_sample_count := 2\<rparr>,
          t_index = example_index,
          dd_area = replicate 32 zero_d,
          FA_ENTRY_COUNT = 16, input_frame_count = 1, input_decimation_count = 1,
          buffers = [buf, buf], current_buffer = 0, fa_offset = 1, d_offset = 1,
          double_accumulators = [used, used], dd_offset = 12, output_id_count = 2,
          timestamp_count = 4, first_timestamp = 2100000, timestamp_array = [0, 0, 0, 0],
          timestamp_index = 1, scheduled = []\<rparr>)"


text \<open>
  A transform about to start major block 6 of the example archive, four minor blocks
  to the major block; buffers and decimation play no part in the index and are empty.
\<close>

definition example_fit :: transform_state where
  "example_fit =
     \<lparr>t_header = example_header, t_index = example_index, dd_area = [],
      FA_ENTRY_COUNT = 16, input_frame_count = 250, input_decimation_count = 125,
      buffers = [], current_buffer = 0, fa_offset = 0, d_offset = 0,
      double_accumulators = [], dd_offset = 12, output_id_count = 0,
      timestamp_count = 4, first_timestamp = 0, timestamp_array = [0, 0, 0, 0],
      timestamp_index = 0, scheduled = []\<rparr>"




section \<open>Words and integers\<close>

lemma unat_ucast_32_64: "unat (ucast (d :: u32) :: u64) = unat d"
proof -
  have "unat d < 2 ^ 32" using unsigned_less [of d] by simp
  then have "unat d < 2 ^ 64" by simp
  then show ?thesis by (simp add: unsigned_ucast_eq take_bit_nat_eq_self)
qed

lemma uint_ucast_32_64: "uint (ucast (d :: u32) :: u64) = uint d"
  using unat_ucast_32_64 [of d] unfolding uint_nat by simp

lemma unat_of_nat_32: "n < 2 ^ 32 \<Longrightarrow> unat (of_nat n :: u32) = n"
  by (simp add: unat_of_nat)

lemma sint_diff_64:
  fixes a e :: u64
  assumes "- (2 ^ 63) \<le> uint a - uint e" "uint a - uint e < 2 ^ 63"
  shows "sint (a - e) = uint a - uint e"
proof -
  have "sint (a - e) = signed_take_bit 63 (uint (a - e))"
    by (simp add: sint_uint)
  also have "uint (a - e) = take_bit 64 (uint a - uint e)"
    by (simp add: uint_word_arith_bintrs)
  also have "signed_take_bit 63 (take_bit 64 (uint a - uint e)) = signed_take_bit 63 (uint a - uint e)"
    by (simp add: signed_take_bit_take_bit)
  also have "\<dots> = uint a - uint e"
    using assms by (intro signed_take_bit_int_eq_self) auto
  finally show ?thesis .
qed

lemma expected_timestamp:
  fixes t :: u64 and d :: u32
  assumes t: "uint t < 2 ^ 62"
  shows "uint (t + ucast d) = uint t + uint d"
proof -
  have d: "uint d < 2 ^ 32" using uint_lt2p [of d] by simp
  have "uint t + uint d < 2 ^ 64" using t d by simp
  then have "uint t + uint (ucast d :: u64) < 2 ^ LENGTH(64)"
    unfolding uint_ucast_32_64 by simp
  then have "uint (t + ucast d) = uint t + uint (ucast d :: u64)"
    by (rule uint_add_lem [THEN iffD1])
  then show ?thesis unfolding uint_ucast_32_64 .
qed

lemma id_zero_next:
  fixes a b :: u32
  shows "b \<noteq> a + of_nat m \<longleftrightarrow> unat b \<noteq> (unat a + m) mod 2 ^ 32"
proof -
  have "unat (a + of_nat m) = (unat a + m) mod 2 ^ 32"
    by (simp add: unat_word_ariths unat_of_nat mod_simps)
  then show ?thesis by (metis word_unat_eq_iff)
qed

lemma s64_id: "- (2 ^ 63) \<le> v \<Longrightarrow> v < 2 ^ 63 \<Longrightarrow> s64 v = v"
  unfolding s64_def by (rule signed_take_bit_int_eq_self)

lemma s32_id: "- (2 ^ 31) \<le> v \<Longrightarrow> v < 2 ^ 31 \<Longrightarrow> s32 v = v"
  unfolding s32_def by (rule signed_take_bit_int_eq_self)

lemma take_bit_id: "0 \<le> v \<Longrightarrow> v < 2 ^ n \<Longrightarrow> take_bit n v = (v :: int)"
  by (simp add: take_bit_int_eq_self)


section \<open>timestamp\_to\_block\<close>

lemma binary_search_no_trap:
  "0 < major_block_count header \<Longrightarrow> binary_search header index ts \<noteq> Some (Inl e)"
  by (auto simp: binary_search_def Let_def split: option.splits)

lemma binary_search_block_count:
  "binary_search header index ts = Some (Inr block) \<Longrightarrow> 0 < major_block_count header"
  by (auto simp: binary_search_def Let_def split: option.splits if_splits)

lemma example_search: "binary_search example_header example_index 1250000 = Some (Inr 2)"
  by (simp add: binary_search_def example_header_def example_index_def INDEX_SKIP_def
      binary_search_loop.simps search_mid_def)

lemma offset_value:
  fixes ts start :: u64 and dur :: u32
  assumes a1: "\<not> ts < start" and a2: "ts - start < ucast dur" and a3: "msc < 2 ^ 32"
  shows "unat (ucast ((ts - start) * ucast (of_nat msc :: u32) div ucast dur) :: u32)
         = (unat ts - unat start) * msc div unat dur"
proof -
  let ?a = "ts - start"
  have le: "start \<le> ts" using a1 by simp
  have ua: "unat ?a = unat ts - unat start"
    using le by (rule unat_sub)
  have ud: "unat (ucast dur :: u64) = unat dur" by (rule unat_ucast_32_64)
  have ub: "unat (ucast (of_nat msc :: u32) :: u64) = msc"
    using a3 by (simp add: unat_ucast_32_64 unat_of_nat_32)
  have lt: "unat ?a < unat dur"
    using a2 ud by (simp add: word_less_nat_alt)
  have d32: "unat dur < 2 ^ 32" using unsigned_less [of dur] by simp
  have "unat ?a * msc < 2 ^ 32 * 2 ^ 32"
    using lt d32 a3 by (intro mult_strict_mono) auto
  then have prod: "unat ?a * msc < 2 ^ 64" by simp
  have um: "unat (?a * ucast (of_nat msc :: u32)) = unat ?a * msc"
    using prod ub unat_mult_lem [of ?a "ucast (of_nat msc :: u32)"] by simp
  have q: "unat (?a * ucast (of_nat msc :: u32) div ucast dur) = unat ?a * msc div unat dur"
    by (simp add: unat_div um ud)
  have "unat ?a * msc < unat dur * msc \<or> msc = 0" using lt by auto
  then have "unat ?a * msc div unat dur < 2 ^ 32"
  proof
    assume "unat ?a * msc < unat dur * msc"
    then have "unat ?a * msc div unat dur < msc"
      by (metis less_mult_imp_div_less mult.commute)
    then show ?thesis using a3 by simp
  next
    assume "msc = 0" then show ?thesis by simp
  qed
  then have "unat (ucast (?a * ucast (of_nat msc :: u32) div ucast dur) :: u32)
      = unat ?a * msc div unat dur"
    using q by (simp add: unsigned_ucast_eq take_bit_nat_eq_self)
  then show ?thesis using ua by simp
qed

lemma guard_iff:
  fixes ts start :: u64 and dur :: u32
  assumes "\<not> ts < start"
  shows "ts - start < ucast dur \<longleftrightarrow> unat ts < unat start + unat dur"
proof -
  have le: "start \<le> ts" using assms by simp
  have "unat (ts - start) = unat ts - unat start" "unat start \<le> unat ts"
    using le unat_sub [OF le] by (simp_all add: word_le_nat_alt)
  then show ?thesis
    by (auto simp: word_less_nat_alt unat_ucast_32_64)
qed

lemma last_sample:
  assumes "0 < msc" "msc < 2 ^ 32"
  shows "unat ((of_nat msc :: u32) - 1) = msc - 1"
proof -
  have "(of_nat msc :: u32) - 1 = of_nat (msc - 1)"
    using assms(1) by (cases msc) simp_all
  moreover have "msc - 1 < 2 ^ 32" using assms(2) by simp
  ultimately show ?thesis by (simp add: unat_of_nat_32)
qed

text \<open>
  C5: \<open>timestamp_to_block\<close> returns the block found by \<open>binary_search\<close> with offset
  \<open>(ts - block_start) * major_sample_count / duration\<close> when \<open>ts\<close> lies inside the
  block, with offset 0 when \<open>ts\<close> precedes the block; when \<open>ts\<close> is at or beyond
  the block's end it returns the next block with offset 0 if \<open>skip_gap\<close> is set, and
  otherwise the same block with offset \<open>major_sample_count - 1\<close>.  All quantities on
  the right are unbounded naturals, so the 64-bit arithmetic of the source computes
  exactly these values.
\<close>

theorem timestamp_to_block_result:
  assumes "binary_search header index ts = Some (Inr block)"
    and "0 < major_sample_count header" and "major_sample_count header < 2 ^ 32"
  shows "\<exists>b off. timestamp_to_block header index ts skip_gap = Some (Inr (b, off)) \<and>
     (b, unat off) =
       (let block_start = unat (timestamp (index ! block));
            dur = unat (duration (index ! block));
            block_size = major_sample_count header
        in if unat ts < block_start then (block, 0)
           else if unat ts < block_start + dur
             then (block, (unat ts - block_start) * block_size div dur)
           else if skip_gap then ((block + 1) mod major_block_count header, 0)
           else (block, block_size - 1))"
proof -
  let ?start = "timestamp (index ! block)" and ?dur = "duration (index ! block)"
  have N: "major_block_count header \<noteq> 0"
    using binary_search_block_count [OF assms(1)] by simp
  show ?thesis
  proof (cases "ts < ?start")
    case True
    then show ?thesis
      using assms(1) by (simp add: timestamp_to_block_def Let_def word_less_nat_alt)
  next
    case False
    note after = this
    then have nat_after: "\<not> unat ts < unat ?start" by (simp add: word_less_nat_alt)
    show ?thesis
    proof (cases "ts - ?start < ucast ?dur")
      case True
      then have nz: "(ucast ?dur :: u64) \<noteq> 0" by auto
      have "unat ts < unat ?start + unat ?dur"
        using True guard_iff [OF after] by simp
      then show ?thesis
        using assms(1) after True nz nat_after offset_value [OF after True assms(3)]
        by (simp add: timestamp_to_block_def Let_def)
    next
      case False
      then have "\<not> unat ts < unat ?start + unat ?dur"
        using guard_iff [OF after] by simp
      then show ?thesis
        using assms(1) after False N nat_after last_sample [OF assms(2,3)]
        by (simp add: timestamp_to_block_def Let_def)
    qed
  qed
qed

theorem timestamp_to_block_result_witness:
  "binary_search example_header example_index 1250000 = Some (Inr 2) \<and>
   timestamp_to_block example_header example_index 1250000 True = Some (Inr (2, 500))"
proof -
  have h2: "0 < major_sample_count example_header"
    and h3: "major_sample_count example_header < 2 ^ 32"
    by (simp_all add: example_header_def)
  obtain b off where r:
    "timestamp_to_block example_header example_index 1250000 True = Some (Inr (b, off))"
    "(b, unat off) =
       (let block_start = unat (timestamp (example_index ! 2));
            dur = unat (duration (example_index ! 2));
            block_size = major_sample_count example_header
        in if unat (1250000 :: u64) < block_start then (2, 0)
           else if unat (1250000 :: u64) < block_start + dur
             then (2, (unat (1250000 :: u64) - block_start) * block_size div dur)
           else if True then ((2 + 1) mod major_block_count example_header, 0)
           else (2, block_size - 1))"
    using timestamp_to_block_result [OF example_search h2 h3, of True] by blast
  from r(2) have "b = 2" "unat off = 500"
    by (simp_all add: example_header_def example_index_def)
  then have "off = 500" by (simp add: word_unat_eq_iff)
  with r(1) \<open>b = 2\<close> example_search show ?thesis by simp
qed

text \<open>
  C9: \<open>timestamp_to_block\<close> never divides by zero.  The division by \<open>duration\<close> is
  reached only under \<open>ts - block_start < duration\<close>, which no zero \<open>duration\<close>
  satisfies, whatever the index holds; the remainders by \<open>major_block_count\<close> are
  safe for every header with at least one major block.
\<close>

theorem timestamp_to_block_no_divide_by_zero:
  "0 < major_block_count header \<Longrightarrow>
     timestamp_to_block header index ts skip_gap \<noteq> Some (Inl DivideByZero)"
  using binary_search_no_trap [of header index ts DivideByZero]
  by (auto simp: timestamp_to_block_def Let_def split: option.splits sum.splits)

theorem timestamp_to_block_no_divide_by_zero_witness:
  "duration (example_index ! 7) = 0 \<and>
   timestamp_to_block example_header
     (example_index [2 := \<lparr>timestamp = 0, duration = 0, id_zero = 0\<rparr>]) 5 False
     \<noteq> Some (Inl DivideByZero)"
proof -
  have "0 < major_block_count example_header" by (simp add: example_header_def)
  from timestamp_to_block_no_divide_by_zero [OF this] show ?thesis
    by (simp add: example_index_def)
qed

section \<open>find\_gap\<close>

lemma find_gap_loop_iff:
  "start < N \<Longrightarrow> N = major_block_count header \<Longrightarrow>
   fst (find_gap_loop header index check_id0
          (timestamp (index ! start) + ucast (duration (index ! start)))
          (id_zero (index ! start) + of_nat (major_sample_count header)) start k)
   \<longleftrightarrow> (\<exists>j. j + 1 < k \<and>
          gap_test header check_id0 (index ! ((start + j) mod N)) (index ! ((start + j + 1) mod N)))"
proof (induction k arbitrary: start)
  case 0
  then show ?case by (simp add: find_gap_loop.simps)
next
  case (Suc k)
  let ?s' = "if start + 1 = N then 0 else start + 1"
  have s': "?s' = (start + 1) mod N" "?s' < N" using Suc.prems by auto
  have shift: "\<And>j. (?s' + j) mod N = (start + (j + 1)) mod N"
  proof -
    fix j
    have "((start + 1) mod N + j) mod N = ((start + 1) + j) mod N" by (rule mod_add_left_eq)
    then show "(?s' + j) mod N = (start + (j + 1)) mod N"
      unfolding s'(1) by (simp add: ac_simps)
  qed
  have shift2: "\<And>j. (?s' + j + 1) mod N = (start + (j + 1) + 1) mod N"
    using shift [of "j + 1" for j] by (simp add: add.assoc)
  show ?case
  proof (cases "1 < Suc k")
    case False
    then show ?thesis by (simp add: find_gap_loop.simps)
  next
    case True
    show ?thesis
    proof (cases "gap_test header check_id0 (index ! start) (index ! ?s')")
      case True
      have "fst (find_gap_loop header index check_id0
          (timestamp (index ! start) + ucast (duration (index ! start)))
          (id_zero (index ! start) + of_nat (major_sample_count header)) start (Suc k))"
        using True \<open>1 < Suc k\<close> Suc.prems
        by (subst find_gap_loop.simps) (auto simp: gap_test_def Let_def)
      moreover have "\<exists>j. j + 1 < Suc k \<and>
          gap_test header check_id0 (index ! ((start + j) mod N)) (index ! ((start + j + 1) mod N))"
        using True \<open>1 < Suc k\<close> Suc.prems s' by (intro exI [of _ 0]) auto
      ultimately show ?thesis by simp
    next
      case False
      have step: "find_gap_loop header index check_id0
          (timestamp (index ! start) + ucast (duration (index ! start)))
          (id_zero (index ! start) + of_nat (major_sample_count header)) start (Suc k)
        = find_gap_loop header index check_id0
          (timestamp (index ! ?s') + ucast (duration (index ! ?s')))
          (id_zero (index ! ?s') + of_nat (major_sample_count header)) ?s' k"
        using False \<open>1 < Suc k\<close> Suc.prems
        by (subst find_gap_loop.simps) (auto simp: gap_test_def Let_def)
      have ih: "fst (find_gap_loop header index check_id0
          (timestamp (index ! ?s') + ucast (duration (index ! ?s')))
          (id_zero (index ! ?s') + of_nat (major_sample_count header)) ?s' k)
         \<longleftrightarrow> (\<exists>j. j + 1 < k \<and>
          gap_test header check_id0 (index ! ((?s' + j) mod N)) (index ! ((?s' + j + 1) mod N)))"
        using Suc.IH [of ?s'] s'(2) Suc.prems(2) by blast
      have "(\<exists>j. j + 1 < k \<and>
          gap_test header check_id0 (index ! ((?s' + j) mod N)) (index ! ((?s' + j + 1) mod N)))
        \<longleftrightarrow> (\<exists>j. j + 1 < Suc k \<and>
          gap_test header check_id0 (index ! ((start + j) mod N)) (index ! ((start + j + 1) mod N)))"
        (is "?L \<longleftrightarrow> ?R")
      proof
        assume ?L
        then obtain j where j: "j + 1 < k"
          "gap_test header check_id0 (index ! ((?s' + j) mod N)) (index ! ((?s' + j + 1) mod N))"
          by blast
        from j(2) have "gap_test header check_id0 (index ! ((start + (j + 1)) mod N))
             (index ! ((start + (j + 1) + 1) mod N))"
          unfolding shift shift2 .
        with j(1) show ?R by (intro exI [of _ "j + 1"]) simp
      next
        assume ?R
        then obtain j where j: "j + 1 < Suc k"
          "gap_test header check_id0 (index ! ((start + j) mod N)) (index ! ((start + j + 1) mod N))"
          by blast
        have "j \<noteq> 0"
        proof
          assume "j = 0"
          with j(2) False s' Suc.prems show False by simp
        qed
        then obtain i where i: "j = i + 1" by (cases j) auto
        with j(2) have "gap_test header check_id0 (index ! ((?s' + i) mod N)) (index ! ((?s' + i + 1) mod N))"
          unfolding shift shift2 by simp
        with j(1) i show ?L by (intro exI [of _ i]) simp
      qed
      with step ih show ?thesis by simp
    qed
  qed
qed

lemma gap_test_integers:
  assumes p: "uint (timestamp prev) < 2 ^ 62" and n: "uint (timestamp nxt) < 2 ^ 62"
  shows "gap_test header check_id0 prev nxt \<longleftrightarrow>
     MAX_DELTA_T < \<bar>uint (timestamp nxt) - (uint (timestamp prev) + uint (duration prev))\<bar> \<or>
     (check_id0 \<and>
      unat (id_zero nxt) \<noteq> (unat (id_zero prev) + major_sample_count header) mod 2 ^ 32)"
proof -
  let ?e = "timestamp prev + ucast (duration prev)"
  have e: "uint ?e = uint (timestamp prev) + uint (duration prev)"
    using p by (rule expected_timestamp)
  have d: "uint (duration prev) < 2 ^ 32" "0 \<le> uint (duration prev)"
    using uint_lt2p [of "duration prev"] by simp_all
  have n0: "0 \<le> uint (timestamp nxt)" "0 \<le> uint (timestamp prev)" by simp_all
  define a b c where "a = uint (timestamp nxt)" and "b = uint (timestamp prev)"
    and "c = uint (duration prev)"
  have "0 \<le> a" "0 \<le> b" "0 \<le> c" "a < 2 ^ 62" "b < 2 ^ 62" "c < 2 ^ 32"
    using p n d by (simp_all add: a_def b_def c_def)
  then have "- (2 ^ 63) \<le> a - (b + c)" "a - (b + c) < 2 ^ 63" by simp_all
  then have lo: "- (2 ^ 63) \<le> uint (timestamp nxt) - uint ?e"
    and hi: "uint (timestamp nxt) - uint ?e < 2 ^ 63"
    unfolding e a_def b_def c_def by simp_all
  have "sint (timestamp nxt - ?e) = uint (timestamp nxt) - uint ?e"
    using lo hi by (rule sint_diff_64)
  then show ?thesis
    unfolding gap_test_def e id_zero_next by (auto simp: MAX_DELTA_T_def)
qed

text \<open>
  C6: \<open>find_gap\<close> answers true exactly when some pair of consecutive blocks of the
  walked range \<open>start, start + 1, \<dots>, start + k - 1\<close> (modulo the block count) has a
  start timestamp more than \<open>MAX_DELTA_T\<close> = 1000 microseconds away from the previous
  block's timestamp plus duration, or, when \<open>check_id0\<close> is set, an \<open>id_zero\<close> that
  is not the previous block's \<open>id_zero\<close> plus \<open>major_sample_count\<close> in 32-bit
  arithmetic.  Timestamps are microseconds below \<open>2 ^ 62\<close>, so that the signed 64-bit
  difference of the source is the integer difference.
\<close>

theorem find_gap_iff:
  assumes "start < major_block_count header"
    and "length index = major_block_count header"
    and "\<forall>e \<in> set index. uint (timestamp e) < 2 ^ 62"
  shows "fst (find_gap header index check_id0 start k) \<longleftrightarrow>
     (\<exists>j. j + 1 < k \<and>
        (let prev = index ! ((start + j) mod major_block_count header);
             nxt = index ! ((start + j + 1) mod major_block_count header)
         in MAX_DELTA_T < \<bar>uint (timestamp nxt) - (uint (timestamp prev) + uint (duration prev))\<bar>
            \<or> (check_id0 \<and>
                unat (id_zero nxt) \<noteq> (unat (id_zero prev) + major_sample_count header) mod 2 ^ 32)))"
proof -
  let ?N = "major_block_count header"
  have N: "0 < ?N" using assms(1) by simp
  have r: "\<And>i. uint (timestamp (index ! (i mod ?N))) < 2 ^ 62"
    using assms(2,3) N by (simp add: nth_mem)
  have "fst (find_gap header index check_id0 start k) \<longleftrightarrow>
    (\<exists>j. j + 1 < k \<and>
       gap_test header check_id0 (index ! ((start + j) mod ?N)) (index ! ((start + j + 1) mod ?N)))"
    unfolding find_gap_def Let_def using assms(1) by (rule find_gap_loop_iff) simp
  then show ?thesis
    unfolding Let_def by (simp add: gap_test_integers [OF r r])
qed

theorem find_gap_iff_witness:
  "fst (find_gap example_header example_index True 1 4) \<and>
   find_gap example_header example_index True 1 3 = (False, 3, 1)"
proof -
  have h: "1 < major_block_count example_header"
    "length example_index = major_block_count example_header"
    "\<forall>e \<in> set example_index. uint (timestamp e) < 2 ^ 62"
    by (simp_all add: example_header_def example_index_def)
  have a: "fst (find_gap example_header example_index True 1 4)"
    unfolding find_gap_iff [OF h]
    by (rule exI [of _ 2]) (simp add: example_header_def example_index_def MAX_DELTA_T_def)
  have b: "find_gap example_header example_index True 1 3 = (False, 3, 1)"
    by (simp add: find_gap_def example_header_def example_index_def MAX_DELTA_T_def
        find_gap_loop.simps)
  from a b show ?thesis by simp
qed


section \<open>binary\_search\<close>

lemma search_mid_offsets:
  assumes N: "0 < N" and ab: "a < b" "b \<le> a + N"
  shows "search_mid N ((c + a) mod N) ((c + b) mod N) = (c + (a + b) div 2) mod N"
proof -
  define d where "d = b - a"
  define low where "low = (c + a) mod N"
  have d: "0 < d" "d \<le> N" "b = a + d" using ab by (simp_all add: d_def)
  have low: "low < N" using N by (simp add: low_def)
  have high: "(c + b) mod N = (low + d) mod N"
    unfolding low_def d(3) by (simp add: mod_add_left_eq add.assoc)
  have half: "(a + b) div 2 = a + d div 2" unfolding d(3) by simp
  have target: "(c + (a + b) div 2) mod N = (low + d div 2) mod N"
    unfolding low_def half by (simp add: mod_add_left_eq add.assoc)
  show ?thesis
  proof (cases "low + d < N")
    case True
    then have "(low + d) mod N = low + d" by simp
    moreover have "(low + (low + d)) div 2 = low + d div 2" by simp
    moreover have "low + d div 2 < N" using True by simp
    ultimately show ?thesis
      using d(1) unfolding target high low_def [symmetric] by (simp add: search_mid_def)
  next
    case False
    then have ge: "N \<le> low + d" by simp
    have "(low + d) mod N = (low + d - N) mod N" using ge by (rule le_mod_geq)
    also have "\<dots> = low + d - N" using low d(2) by simp
    finally have h: "(low + d) mod N = low + d - N" .
    have nl: "\<not> low < low + d - N" using d(2) by simp
    have "(low + (low + d - N) + N) div 2 = low + d div 2" using ge by simp
    then show ?thesis
      using nl unfolding target high low_def [symmetric] h by (simp add: search_mid_def)
  qed
qed

lemma exit_test_offsets:
  fixes N a b c :: nat
  assumes N: "0 < N" and ab: "a < b" "b \<le> a + N"
  shows "(((c + a) mod N + 1) mod N = (c + b) mod N) \<longleftrightarrow> b = a + 1"
proof
  assume "b = a + 1"
  moreover have "((c + a) mod N + 1) mod N = (c + a + 1) mod N" by (rule mod_add_left_eq)
  ultimately show "((c + a) mod N + 1) mod N = (c + b) mod N"
    by (simp add: add.assoc)
next
  assume eq: "((c + a) mod N + 1) mod N = (c + b) mod N"
  have "((c + a) mod N + 1) mod N = (c + a + 1) mod N" by (rule mod_add_left_eq)
  with eq have "(c + b) mod N = (c + a + 1) mod N" by simp
  moreover have "c + a + 1 \<le> c + b" using ab by simp
  ultimately have "N dvd (c + b) - (c + a + 1)"
    by (simp add: mod_eq_dvd_iff_nat)
  then have "N dvd b - (a + 1)" by simp
  moreover have "b - (a + 1) < N" using ab N by simp
  ultimately have "b - (a + 1) = 0"
    by (meson dvd_imp_le gr0I not_less)
  then show "b = a + 1" using ab by simp
qed

lemma binary_search_loop_offsets:
  assumes N: "0 < N" and ab: "a < b" "b \<le> a + N"
  shows "\<exists>r. a \<le> r \<and> r < b \<and>
     binary_search_loop N index ts ((c + a) mod N) ((c + b) mod N)
       = Some ((c + r) mod N, (c + r + 1) mod N) \<and>
     (r = a \<or> timestamp (index ! ((c + r) mod N)) \<le> ts) \<and>
     (r + 1 = b \<or> ts < timestamp (index ! ((c + r + 1) mod N)))"
  using ab
proof (induction "b - a" arbitrary: a b rule: less_induct)
  case less
  note ab = less.prems
  show ?case
  proof (cases "b = a + 1")
    case True
    then have "((c + a) mod N + 1) mod N = (c + b) mod N"
      using exit_test_offsets [OF N ab, of c] by simp
    then have "binary_search_loop N index ts ((c + a) mod N) ((c + b) mod N)
        = Some ((c + a) mod N, (c + a + 1) mod N)"
      using True by (subst binary_search_loop.simps) (simp add: add.assoc)
    then show ?thesis using True by (intro exI [of _ a]) simp
  next
    case False
    then have go: "((c + a) mod N + 1) mod N \<noteq> (c + b) mod N"
      using exit_test_offsets [OF N ab, of c] by simp
    define m where "m = (a + b) div 2"
    have m: "a < m" "m < b" using ab False by (simp_all add: m_def)
    have mid: "search_mid N ((c + a) mod N) ((c + b) mod N) = (c + m) mod N"
      unfolding m_def using N ab by (rule search_mid_offsets)
    show ?thesis
    proof (cases "ts < timestamp (index ! ((c + m) mod N))")
      case True
      have step: "binary_search_loop N index ts ((c + a) mod N) ((c + b) mod N)
          = binary_search_loop N index ts ((c + a) mod N) ((c + m) mod N)"
        using go True mid by (subst binary_search_loop.simps) simp
      have "m - a < b - a" "a < m" "m \<le> a + N" using m ab by simp_all
      from less.hyps [OF this] obtain r where r: "a \<le> r" "r < m"
        "binary_search_loop N index ts ((c + a) mod N) ((c + m) mod N)
           = Some ((c + r) mod N, (c + r + 1) mod N)"
        "r = a \<or> timestamp (index ! ((c + r) mod N)) \<le> ts"
        "r + 1 = m \<or> ts < timestamp (index ! ((c + r + 1) mod N))"
        by blast
      have "r + 1 = b \<or> ts < timestamp (index ! ((c + r + 1) mod N))"
        using r(5) True by (auto simp: add.assoc)
      with r m step show ?thesis by (intro exI [of _ r]) simp
    next
      case False
      have step: "binary_search_loop N index ts ((c + a) mod N) ((c + b) mod N)
          = binary_search_loop N index ts ((c + m) mod N) ((c + b) mod N)"
        using go False mid by (subst binary_search_loop.simps) simp
      have "b - m < b - a" "m < b" "b \<le> m + N" using m ab by simp_all
      from less.hyps [OF this] obtain r where r: "m \<le> r" "r < b"
        "binary_search_loop N index ts ((c + m) mod N) ((c + b) mod N)
           = Some ((c + r) mod N, (c + r + 1) mod N)"
        "r = m \<or> timestamp (index ! ((c + r) mod N)) \<le> ts"
        "r + 1 = b \<or> ts < timestamp (index ! ((c + r + 1) mod N))"
        by blast
      have "r = a \<or> timestamp (index ! ((c + r) mod N)) \<le> ts"
        using r(4) False by auto
      with r m step show ?thesis by (intro exI [of _ r]) simp
    qed
  qed
qed

lemma binary_search_returns:
  assumes N: "0 < major_block_count header"
    and c: "current_major_block header < major_block_count header"
  shows "\<exists>block. binary_search header index ts = Some (Inr block)"
proof -
  let ?N = "major_block_count header" and ?cur = "current_major_block header"
  let ?c = "?cur + 1 + INDEX_SKIP"
  define b where "b = (if 3 < ?N then ?N - 3 else if ?N = 3 then 3 else 1)"
  have b: "0 < b" "b \<le> 0 + ?N" using N by (auto simp: b_def)
  have "?N = 1 \<or> ?N = 2 \<or> ?N = 3 \<or> 3 < ?N" using N by auto
  then have "\<exists>k. ?c + b = ?cur + k * ?N"
  proof (elim disjE)
    assume "?N = 1" then show ?thesis by (intro exI [of _ 4]) (simp add: b_def INDEX_SKIP_def)
  next
    assume "?N = 2" then show ?thesis by (intro exI [of _ 2]) (simp add: b_def INDEX_SKIP_def)
  next
    assume "?N = 3" then show ?thesis by (intro exI [of _ 2]) (simp add: b_def INDEX_SKIP_def)
  next
    assume "3 < ?N" then show ?thesis by (intro exI [of _ 1]) (simp add: b_def INDEX_SKIP_def)
  qed
  then obtain k where "?c + b = ?cur + k * ?N" ..
  then have "(?c + b) mod ?N = (?cur + k * ?N) mod ?N" by (rule arg_cong)
  then have high: "(?c + b) mod ?N = ?cur" using c by simp
  from binary_search_loop_offsets [OF N b, of index ts ?c]
  obtain r where "binary_search_loop ?N index ts ((?c + 0) mod ?N) ((?c + b) mod ?N)
       = Some ((?c + r) mod ?N, (?c + r + 1) mod ?N)"
    by blast
  then show ?thesis
    using N unfolding high by (simp add: binary_search_def Let_def)
qed

lemma range_block_last:
  assumes "3 < major_block_count header" "current_major_block header < major_block_count header"
  shows "range_block header (major_block_count header - 3) = current_major_block header"
proof -
  have "current_major_block header + 1 + INDEX_SKIP + (major_block_count header - 3)
      = current_major_block header + major_block_count header"
    using assms(1) by (simp add: INDEX_SKIP_def)
  then have "range_block header (major_block_count header - 3)
      = (current_major_block header + major_block_count header) mod major_block_count header"
    unfolding range_block_def by (rule arg_cong)
  then show ?thesis using assms(2) by simp
qed

text \<open>
  C4, as a counterexample: in the example archive blocks 0 to 5 are written, and a
  timestamp earlier than every block of the search range makes \<open>binary_search\<close>
  return the first block of the range, whose timestamp is later than the one asked for.
\<close>

theorem binary_search_returns_later_block:
  "binary_search example_header example_index 5 = Some (Inr 1) \<and>
   \<not> timestamp (example_index ! 1) \<le> 5 \<and>
   duration (example_index ! 1) \<noteq> 0"
  by (simp add: binary_search_def example_header_def example_index_def INDEX_SKIP_def
      binary_search_loop.simps search_mid_def)

text \<open>
  C4, amended: \<open>binary_search\<close> returns.  For a header with more than
  \<open>1 + INDEX_SKIP\<close> blocks whose index timestamps do not decrease along the range
  from \<open>current + 1 + INDEX_SKIP\<close> up to, and excluding, \<open>current\<close>, it picks the
  block \<open>r\<close> of the range such that every later block of the range has a timestamp
  above \<open>ts\<close> and every block between the first and \<open>r\<close> has a timestamp of at
  most \<open>ts\<close>: the greatest block with timestamp at most \<open>ts\<close>, or the first block
  of the range when even that one is later than \<open>ts\<close>.  It returns the picked block,
  or the block after it (the high bound of the search) when the picked block has
  duration 0.  The picked block's timestamp is at most \<open>ts\<close> when the first block's
  is.
\<close>

theorem binary_search_result:
  assumes "3 < major_block_count header"
    and "current_major_block header < major_block_count header"
    and "sorted (map (\<lambda>j. timestamp (index ! range_block header j))
           [0 ..< major_block_count header - 3])"
  shows "\<exists>r. r < major_block_count header - 3 \<and>
     binary_search header index ts =
       Some (Inr (if duration (index ! range_block header r) = 0
                  then range_block header (r + 1) else range_block header r)) \<and>
     (\<forall>j. 0 < j \<and> j \<le> r \<longrightarrow> timestamp (index ! range_block header j) \<le> ts) \<and>
     (\<forall>j. r < j \<and> j < major_block_count header - 3 \<longrightarrow>
          ts < timestamp (index ! range_block header j)) \<and>
     (timestamp (index ! range_block header 0) \<le> ts \<longrightarrow>
          timestamp (index ! range_block header r) \<le> ts)"
proof -
  let ?N = "major_block_count header" and ?c = "current_major_block header + 1 + INDEX_SKIP"
  let ?f = "\<lambda>j. timestamp (index ! range_block header j)"
  have N: "0 < ?N" and n: "0 < ?N - 3" "?N - 3 \<le> 0 + ?N" using assms(1) by simp_all
  have mono: "\<And>i j. i \<le> j \<Longrightarrow> j < ?N - 3 \<Longrightarrow> ?f i \<le> ?f j"
  proof -
    fix i j assume ij: "i \<le> j" "j < ?N - 3"
    from assms(3) ij have "map ?f [0 ..< ?N - 3] ! i \<le> map ?f [0 ..< ?N - 3] ! j"
      by (intro sorted_nth_mono) simp_all
    with ij show "?f i \<le> ?f j" by simp
  qed
  from binary_search_loop_offsets [OF N n, of index ts ?c]
  obtain r where r: "r < ?N - 3"
    "binary_search_loop ?N index ts ((?c + 0) mod ?N) ((?c + (?N - 3)) mod ?N)
       = Some ((?c + r) mod ?N, (?c + r + 1) mod ?N)"
    "r = 0 \<or> timestamp (index ! ((?c + r) mod ?N)) \<le> ts"
    "r + 1 = ?N - 3 \<or> ts < timestamp (index ! ((?c + r + 1) mod ?N))"
    by blast
  have high: "(?c + (?N - 3)) mod ?N = current_major_block header"
    using range_block_last [OF assms(1,2)] by (simp add: range_block_def)
  have res: "binary_search header index ts =
       Some (Inr (if duration (index ! range_block header r) = 0
                  then range_block header (r + 1) else range_block header r))"
    using r(2) N unfolding high
    by (simp add: binary_search_def Let_def range_block_def add.assoc)
  have lower: "\<forall>j. 0 < j \<and> j \<le> r \<longrightarrow> ?f j \<le> ts"
  proof (intro allI impI)
    fix j assume j: "0 < j \<and> j \<le> r"
    then have "r \<noteq> 0" by simp
    with r(3) have "?f r \<le> ts" by (simp add: range_block_def)
    moreover have "?f j \<le> ?f r" using j r(1) by (intro mono) simp_all
    ultimately show "?f j \<le> ts" by simp
  qed
  have upper: "\<forall>j. r < j \<and> j < ?N - 3 \<longrightarrow> ts < ?f j"
  proof (intro allI impI)
    fix j assume j: "r < j \<and> j < ?N - 3"
    then have "r + 1 \<noteq> ?N - 3" by simp
    with r(4) have "ts < ?f (r + 1)" by (simp add: range_block_def add.assoc)
    moreover have "?f (r + 1) \<le> ?f j" using j by (intro mono) simp_all
    ultimately show "ts < ?f j" by simp
  qed
  have first: "?f 0 \<le> ts \<longrightarrow> ?f r \<le> ts"
    using r(3) by (auto simp: range_block_def)
  from r(1) res lower upper first show ?thesis by blast
qed

theorem binary_search_result_witness:
  "\<exists>r. r < major_block_count example_header - 3 \<and>
     binary_search example_header example_index 1250000 =
       Some (Inr (if duration (example_index ! range_block example_header r) = 0
                  then range_block example_header (r + 1) else range_block example_header r)) \<and>
     (\<forall>j. 0 < j \<and> j \<le> r \<longrightarrow>
          timestamp (example_index ! range_block example_header j) \<le> 1250000) \<and>
     (\<forall>j. r < j \<and> j < major_block_count example_header - 3 \<longrightarrow>
          1250000 < timestamp (example_index ! range_block example_header j)) \<and>
     (timestamp (example_index ! range_block example_header 0) \<le> 1250000 \<longrightarrow>
          timestamp (example_index ! range_block example_header r) \<le> 1250000)"
proof -
  have h1: "3 < major_block_count example_header"
    and h2: "current_major_block example_header < major_block_count example_header"
    by (simp_all add: example_header_def)
  have "[0 ..< major_block_count example_header - 3] = [0, 1, 2, 3, 4]"
    by (simp add: example_header_def upt_rec)
  then have h3: "sorted (map (\<lambda>j. timestamp (example_index ! range_block example_header j))
           [0 ..< major_block_count example_header - 3])"
    by (simp add: range_block_def example_header_def example_index_def INDEX_SKIP_def)
  show ?thesis by (rule binary_search_result [OF h1 h2 h3])
qed


section \<open>The block directory of the disk writer\<close>

lemma expire_loop_range:
  "1 \<le> count \<Longrightarrow> count \<le> length (h_blocks (w_header s)) \<Longrightarrow>
     \<exists>c. expire_loop s count = Inr c \<and> 1 \<le> c \<and> c \<le> count"
proof (induction s count rule: expire_loop.induct)
  case (1 s count)
  show ?case
  proof (cases "1 < count \<and> expired s (stop_offset (h_blocks (w_header s) ! (count - 1)))")
    case True
    have inside: "\<not> length (h_blocks (w_header s)) \<le> count - 1"
      using True "1.prems" by arith
    have "expire_loop s count = expire_loop s (count - 1)"
      using True inside by (subst expire_loop.simps) simp
    moreover have "\<exists>c. expire_loop s (count - 1) = Inr c \<and> 1 \<le> c \<and> c \<le> count - 1"
      using True inside "1.prems" by (intro "1.IH") auto
    ultimately show ?thesis by auto
  next
    case False
    have "1 < count \<Longrightarrow> \<not> length (h_blocks (w_header s)) \<le> count - 1"
      using "1.prems" by arith
    with False have "expire_loop s count = Inr count"
      by (subst expire_loop.simps) auto
    then show ?thesis using "1.prems" by simp
  qed
qed

lemma expire_archive_blocks_ok:
  assumes "count_ok M s"
  shows "\<exists>s'. expire_archive_blocks s = Inr s' \<and> count_ok M s' \<and>
     block_count (w_header s') \<le> block_count (w_header s)"
proof -
  from assms have "1 \<le> block_count (w_header s)"
    "block_count (w_header s) \<le> length (h_blocks (w_header s))"
    by (simp_all add: count_ok_def)
  from expire_loop_range [OF this] obtain c where
    c: "expire_loop s (block_count (w_header s)) = Inr c" "1 \<le> c"
       "c \<le> block_count (w_header s)" by blast
  then show ?thesis
    using assms by (auto simp: expire_archive_blocks_def Let_def count_ok_def)
qed

lemma update_header_ok:
  assumes "count_ok M s"
  shows "\<exists>s'. update_header force now s = Inr s' \<and> count_ok M s'"
proof -
  from expire_archive_blocks_ok [OF assms] obtain s1 where
    s1: "expire_archive_blocks s = Inr s1" "count_ok M s1" by blast
  then show ?thesis
    by (cases "h_blocks (w_header s1)")
       (auto simp: update_header_def write_header_def count_ok_def)
qed

lemma start_archive_block_ok:
  assumes "1 \<le> M" "length (h_blocks (w_header s)) = M"
  shows "count_ok M (start_archive_block M now s)"
  using assms by (auto simp: start_archive_block_def count_ok_def Let_def)

lemma writer_step_ok:
  assumes "count_ok M s"
  shows "\<exists>s'. writer_step M x s = Inr s' \<and> count_ok M s'"
proof (cases x)
  case (Start_block now)
  then show ?thesis
    using assms start_archive_block_ok [of M s now] by (simp add: count_ok_def)
next
  case (Write_block sz now)
  have "count_ok M (s \<lparr>write_offset := (if write_offset s + sz \<ge> data_size s then 0 else write_offset s + sz)\<rparr>)"
    using assms by (simp add: count_ok_def)
  from update_header_ok [OF this] show ?thesis using Write_block by (simp add: Let_def)
next
  case (Begin_gap now)
  then show ?thesis using update_header_ok [OF assms] by simp
next
  case (Backlog b)
  then show ?thesis using assms by (simp add: update_backlog_def count_ok_def)
next
  case (Close now)
  have "count_ok M (s \<lparr>w_header := (w_header s) \<lparr>disk_status := 0\<rparr>\<rparr>)"
    using assms by (simp add: count_ok_def)
  from update_header_ok [OF this] show ?thesis using Close by (simp add: close_header_def)
qed

lemma writer_steps_ok:
  "count_ok M s \<Longrightarrow> \<exists>s'. writer_steps M xs s = Inr s' \<and> count_ok M s'"
proof (induction xs arbitrary: s)
  case Nil
  then show ?case by simp
next
  case (Cons x xs)
  from writer_step_ok [OF Cons.prems] obtain s1 where
    "writer_step M x s = Inr s1" "count_ok M s1" by blast
  with Cons.IH [of s1] show ?case by simp
qed

text \<open>
  C10: once the disk writer has executed its first \<open>start_archive_block\<close>, every
  sequence of header operations (blocks written with \<open>update_header\<close>, gaps with a
  forced \<open>update_header\<close>, further \<open>start_archive_block\<close>s, the closing
  \<open>close_header\<close>) runs without leaving the \<open>blocks\<close> array and leaves
  \<open>block_count\<close> in the range from 1 to \<open>MAX_HEADER_BLOCKS\<close>.
\<close>

theorem block_count_in_range:
  assumes "1 \<le> M" and "length (h_blocks (w_header s)) = M"
  shows "\<exists>s'. writer_steps M (Start_block now # xs) s = Inr s' \<and>
     1 \<le> block_count (w_header s') \<and> block_count (w_header s') \<le> M"
proof -
  have "count_ok M (start_archive_block M now s)"
    using assms by (rule start_archive_block_ok)
  from writer_steps_ok [OF this, of xs] show ?thesis by (auto simp: count_ok_def)
qed


theorem block_count_in_range_witness:
  "block_count (w_header example_writer) = 0 \<and>
   (\<exists>s'. writer_steps 4 (Start_block 10 # example_events) example_writer = Inr s' \<and>
      1 \<le> block_count (w_header s') \<and> block_count (w_header s') \<le> 4)"
proof -
  have h: "1 \<le> (4 :: nat)" "length (h_blocks (w_header example_writer)) = 4"
    by (simp_all add: example_writer_def Let_def)
  from block_count_in_range [OF h] show ?thesis
    by (simp add: example_writer_def Let_def)
qed

section \<open>Filter masks: parsing what was formatted\<close>

lemma is_digit_digit_char: "n < 10 \<Longrightarrow> is_digit (digit_char n)"
  by (simp add: is_digit_def digit_char_def)

lemma digit_value_digit_char: "n < 10 \<Longrightarrow> digit_value (digit_char n) = n"
  by (simp add: digit_value_def digit_char_def)

lemma decimal_digits: "\<forall>ch \<in> set (decimal n). is_digit ch"
proof (induction n rule: decimal.induct)
  case (1 n)
  show ?case
  proof (cases "n < 10")
    case True
    then show ?thesis by (subst decimal.simps) (simp add: is_digit_digit_char)
  next
    case False
    then show ?thesis using 1 by (subst decimal.simps) (simp add: is_digit_digit_char)
  qed
qed

lemma decimal_not_empty: "decimal n \<noteq> []"
  by (subst decimal.simps) simp

lemma decimal_value: "foldl (\<lambda>n ch. 10 * n + digit_value ch) 0 (decimal n) = n"
proof (induction n rule: decimal.induct)
  case (1 n)
  show ?case
  proof (cases "n < 10")
    case True
    then show ?thesis by (subst decimal.simps) (simp add: digit_value_digit_char)
  next
    case False
    then show ?thesis using 1 by (subst decimal.simps) (simp add: digit_value_digit_char)
  qed
qed

lemma parse_uint_decimal:
  assumes "no_digit_next rest"
  shows "parse_uint (decimal n @ rest) = (True, n, rest)"
proof -
  have t: "takeWhile is_digit (decimal n @ rest) = decimal n"
    using assms decimal_digits [of n]
    by (cases rest) (simp_all add: no_digit_next_def takeWhile_append2)
  have d: "dropWhile is_digit (decimal n @ rest) = rest"
    using assms decimal_digits [of n]
    by (cases rest) (simp_all add: no_digit_next_def dropWhile_append2)
  show ?thesis
    unfolding parse_uint_def t d by (simp add: decimal_not_empty decimal_value)
qed

lemma format_d_decimal: "n < 2 ^ 31 \<Longrightarrow> format_d (of_nat n) = decimal n"
proof -
  assume n: "n < 2 ^ 31"
  have "sint (of_nat n :: u32) = int n"
    using n by (simp add: signed_of_nat signed_take_bit_int_eq_self)
  then show ?thesis by (simp add: format_d_def)
qed

lemma comma_next_no_digit: "comma_next s \<Longrightarrow> no_digit_next s"
  by (cases s) (simp_all add: comma_next_def no_digit_next_def is_digit_def)

lemma comma_next_no_dash: "comma_next s \<Longrightarrow> read_char s CHR ''-'' = (False, s)"
  by (cases s) (simp_all add: comma_next_def read_char_def)

lemma comma_next_render_more: "comma_next (render_more rs)"
  by (cases rs) (simp_all add: comma_next_def render_more_def)

lemma parse_range_render:
  assumes "fst r \<le> snd r" "snd r < n" "comma_next rest"
  shows "parse_range (render_range r @ rest) n m
     = (True, rest, set_mask_range m (fst r) (snd r))"
proof (cases "fst r < snd r")
  case False
  then have eq: "snd r = fst r" using assms(1) by simp
  have "parse_uint (decimal (fst r) @ rest) = (True, fst r, rest)"
    using assms(3) by (intro parse_uint_decimal comma_next_no_digit)
  then show ?thesis
    using False assms eq
    by (simp add: parse_range_def render_range_def parse_id_def comma_next_no_dash)
next
  case True
  have "no_digit_next (CHR ''-'' # decimal (snd r) @ rest)"
    by (simp add: no_digit_next_def is_digit_def)
  then have p1: "parse_uint (decimal (fst r) @ CHR ''-'' # decimal (snd r) @ rest)
      = (True, fst r, CHR ''-'' # decimal (snd r) @ rest)"
    by (rule parse_uint_decimal)
  have p2: "parse_uint (decimal (snd r) @ rest) = (True, snd r, rest)"
    using assms(3) by (intro parse_uint_decimal comma_next_no_digit)
  show ?thesis
    using True assms p1 p2
    by (simp add: parse_range_def render_range_def parse_id_def read_char_def)
qed

lemma parse_ranges_render:
  assumes "\<forall>r \<in> set (r0 # rs). fst r \<le> snd r \<and> snd r < n"
  shows "parse_ranges (render_range r0 @ render_more rs) n m = (True, [], set_ranges m (r0 # rs))"
  using assms
proof (induction rs arbitrary: r0 m)
  case Nil
  have "parse_range (render_range r0 @ []) n m = (True, [], set_mask_range m (fst r0) (snd r0))"
    using Nil by (intro parse_range_render) (simp_all add: comma_next_def)
  then show ?case
    by (subst parse_ranges.simps) (simp add: render_more_def set_ranges_def read_char_def)
next
  case (Cons r1 rs)
  let ?rest = "CHR '','' # render_range r1 @ render_more rs"
  have more: "render_more (r1 # rs) = ?rest" by (simp add: render_more_def)
  have "parse_range (render_range r0 @ ?rest) n m
      = (True, ?rest, set_mask_range m (fst r0) (snd r0))"
    using Cons.prems by (intro parse_range_render) (simp_all add: comma_next_def)
  then have "parse_ranges (render_range r0 @ ?rest) n m
      = parse_ranges (render_range r1 @ render_more rs) n (set_mask_range m (fst r0) (snd r0))"
    by (subst parse_ranges.simps) (simp add: read_char_def)
  also have "\<dots> = (True, [], set_ranges (set_mask_range m (fst r0) (snd r0)) (r1 # rs))"
    using Cons.prems by (intro Cons.IH) simp
  finally show ?case unfolding more by (simp add: set_ranges_def)
qed

lemma length_set_mask_bit: "length (set_mask_bit m i) = length m"
  by (simp add: set_mask_bit_def)

lemma test_set_mask_bit:
  assumes "i < 8 * length m"
  shows "test_mask_bit (set_mask_bit m i) j \<longleftrightarrow> j = i \<or> test_mask_bit m j"
proof (cases "j div 8 = i div 8")
  case False
  then have "j \<noteq> i" by auto
  with False show ?thesis by (simp add: test_mask_bit_def set_mask_bit_def)
next
  case True
  have k: "i div 8 < length m" using assms by simp
  have "j = i \<longleftrightarrow> j mod 8 = i mod 8"
    using True by (metis div_mult_mod_eq)
  moreover have "j mod 8 < 8" by simp
  ultimately show ?thesis
    using True k
    by (auto simp: test_mask_bit_def set_mask_bit_def bit_simps)
qed

lemma length_set_mask_range: "length (set_mask_range m a b) = length m"
proof (induction m a b rule: set_mask_range.induct)
  case (1 m i end_id)
  then show ?case
    by (subst set_mask_range.simps) (simp add: length_set_mask_bit)
qed

lemma test_set_mask_range:
  "b < 8 * length m \<Longrightarrow>
   test_mask_bit (set_mask_range m a b) j \<longleftrightarrow> (a \<le> j \<and> j \<le> b) \<or> test_mask_bit m j"
proof (induction m a b rule: set_mask_range.induct)
  case (1 m i end_id)
  show ?case
  proof (cases "i \<le> end_id")
    case False
    then show ?thesis by (subst set_mask_range.simps) auto
  next
    case True
    have "test_mask_bit (set_mask_range m i end_id) j
        = test_mask_bit (set_mask_range (set_mask_bit m i) (i + 1) end_id) j"
      using True by (subst set_mask_range.simps) simp
    also have "\<dots> \<longleftrightarrow> (i + 1 \<le> j \<and> j \<le> end_id) \<or> test_mask_bit (set_mask_bit m i) j"
      using True "1.prems" by (intro "1.IH") (simp_all add: length_set_mask_bit)
    also have "\<dots> \<longleftrightarrow> (i \<le> j \<and> j \<le> end_id) \<or> test_mask_bit m j"
      using True "1.prems" by (auto simp: test_set_mask_bit)
    finally show ?thesis .
  qed
qed

lemma length_set_ranges: "length (set_ranges m rs) = length m"
  by (induction rs arbitrary: m) (simp_all add: set_ranges_def length_set_mask_range)

lemma test_set_ranges:
  "\<forall>r \<in> set rs. snd r < 8 * length m \<Longrightarrow>
   test_mask_bit (set_ranges m rs) j \<longleftrightarrow>
     (\<exists>r \<in> set rs. fst r \<le> j \<and> j \<le> snd r) \<or> test_mask_bit m j"
proof (induction rs arbitrary: m)
  case Nil
  then show ?case by (simp add: set_ranges_def)
next
  case (Cons r rs)
  have "set_ranges m (r # rs) = set_ranges (set_mask_range m (fst r) (snd r)) rs"
    by (simp add: set_ranges_def)
  moreover have "test_mask_bit (set_ranges (set_mask_range m (fst r) (snd r)) rs) j \<longleftrightarrow>
     (\<exists>r \<in> set rs. fst r \<le> j \<and> j \<le> snd r) \<or> test_mask_bit (set_mask_range m (fst r) (snd r)) j"
    using Cons.prems by (intro Cons.IH) (simp add: length_set_mask_range)
  ultimately show ?case using Cons.prems by (auto simp: test_set_mask_range)
qed

lemma mask_eqI:
  assumes len: "length m1 = length m2"
    and bits: "\<And>i. i < 8 * length m1 \<Longrightarrow> test_mask_bit m1 i = test_mask_bit m2 i"
  shows "m1 = m2"
proof (rule nth_equalityI [OF len])
  fix k assume k: "k < length m1"
  show "m1 ! k = m2 ! k"
  proof (rule bit_eqI)
    fix n
    show "bit (m1 ! k) n \<longleftrightarrow> bit (m2 ! k) n"
    proof (cases "n < 8")
      case True
      then have "(8 * k + n) div 8 = k" "(8 * k + n) mod 8 = n" "8 * k + n < 8 * length m1"
        using k by simp_all
      with bits [of "8 * k + n"] show ?thesis by (simp add: test_mask_bit_def)
    next
      case False
      then have "\<not> bit (m1 ! k) n" "\<not> bit (m2 ! k) n"
        by (auto dest: bit_imp_le_length)
      then show ?thesis by simp
    qed
  qed
qed

lemma write_string_text:
  "write_string buf v = (True, buf') \<Longrightarrow> fst buf' = fst buf @ v"
  by (cases buf) (auto simp: write_string_def split: if_splits)

lemma write_range_text:
  assumes w: "write_range buf a b fst_flag = (True, buf')" and ab: "a \<le> b" "b < 2 ^ 31"
  shows "fst buf' = fst buf @ (if fst_flag then [] else '','') @ render_range (a, b)"
proof -
  obtain ok1 b1 where s1: "(if \<not> fst_flag then write_string buf '','' else (True, buf)) = (ok1, b1)"
    by (cases "if \<not> fst_flag then write_string buf '','' else (True, buf)") auto
  obtain ok2 b2 where s2: "write_uint b1 a = (ok2, b2)" by (cases "write_uint b1 a") auto
  obtain ok3 b3 where s3: "write_string b2 ''-'' = (ok3, b3)" by (cases "write_string b2 ''-''") auto
  from w s1 s2 have o1: "ok1" and o2: "ok2"
    by (auto simp: write_range_def Let_def split: if_splits)
  have t1: "fst b1 = fst buf @ (if fst_flag then [] else '','')"
    using s1 o1 by (auto split: if_splits dest: write_string_text)
  have da: "format_d (of_nat a) = decimal a" and db: "format_d (of_nat b) = decimal b"
    using ab by (simp_all add: format_d_decimal)
  have t2: "fst b2 = fst b1 @ decimal a"
    using s2 o2 da by (auto simp: write_uint_def dest: write_string_text)
  show ?thesis
  proof (cases "a < b")
    case False
    then have "buf' = b2" using w s1 s2 o1 o2 by (simp add: write_range_def Let_def)
    then show ?thesis using False t1 t2 by (simp add: render_range_def)
  next
    case True
    then have o3: "ok3" and w3: "write_uint b3 b = (True, buf')"
      using w s1 s2 s3 o1 o2 by (auto simp: write_range_def Let_def split: if_splits)
    have "fst b3 = fst b2 @ ''-''" using s3 o3 by (auto dest: write_string_text)
    moreover have "fst buf' = fst b3 @ decimal b"
      using w3 db by (auto simp: write_uint_def dest: write_string_text)
    ultimately show ?thesis using True t1 t2 by (simp add: render_range_def)
  qed
qed

lemma render_more_snoc:
  "tl (render_more (rs @ [r])) = tl (render_more rs) @ (if rs = [] then [] else '','') @ render_range r"
  by (cases rs) (simp_all add: render_more_def)

lemma format_inv_close:
  assumes inv: "format_inv fmask i st" and ok: "ok st" and ir: "in_range st"
    and w: "write_range (buffer st) (range_start st) (i - 1) (first st) = (True, b)"
    and i: "i \<le> 2 ^ 31" and nb: "\<forall>j. i \<le> j \<and> j < k \<longrightarrow> \<not> test_mask_bit fmask j" and ik: "i \<le> k"
  shows "format_inv fmask k (st \<lparr>ok := True, in_range := False, first := False, buffer := b\<rparr>)"
proof -
  from inv ok obtain rs where rs: "fst (buffer st) = tl (render_more rs)" "first st \<longleftrightarrow> rs = []"
    "\<forall>r \<in> set rs. fst r \<le> snd r \<and> snd r < i" "range_start st < i"
    "\<forall>j < i. test_mask_bit fmask j \<longleftrightarrow> covers rs j \<or> range_start st \<le> j"
    using ir unfolding format_inv_def by auto
  let ?r = "(range_start st, i - 1)"
  have ab: "range_start st \<le> i - 1" "i - 1 < 2 ^ 31" using rs(4) i by simp_all
  have tx: "fst b = tl (render_more (rs @ [?r]))"
    using write_range_text [OF w ab] rs(1,2) by (simp add: render_more_snoc)
  have valid: "\<forall>r \<in> set (rs @ [?r]). fst r \<le> snd r \<and> snd r < k"
    using rs(3,4) ik by auto
  have bits: "\<forall>j < k. test_mask_bit fmask j \<longleftrightarrow> covers (rs @ [?r]) j"
  proof (intro allI impI)
    fix j assume "j < k"
    show "test_mask_bit fmask j \<longleftrightarrow> covers (rs @ [?r]) j"
    proof (cases "j < i")
      case True
      then show ?thesis using rs(5) by (auto simp: covers_def)
    next
      case False
      then have "\<not> test_mask_bit fmask j" using nb \<open>j < k\<close> by simp
      moreover have "\<not> covers (rs @ [?r]) j" using False rs(3,4) by (auto simp: covers_def)
      ultimately show ?thesis by simp
    qed
  qed
  show ?thesis
    unfolding format_inv_def using tx valid bits
    by (intro impI exI [of _ "rs @ [?r]"]) simp
qed

lemma format_inv_step:
  assumes inv: "format_inv fmask i st" and ok: "ok st" and i: "i < 2 ^ 31"
  shows "format_inv fmask (i + 1)
     (if test_mask_bit fmask i \<and> \<not> in_range st
      then st \<lparr>in_range := True, range_start := i\<rparr>
      else if \<not> test_mask_bit fmask i \<and> in_range st
      then
        (let (r, b) = write_range (buffer st) (range_start st) (i - 1) (first st)
         in st \<lparr>ok := r, in_range := False, first := False, buffer := b\<rparr>)
      else st)"
proof -
  from inv ok obtain rs where rs: "fst (buffer st) = tl (render_more rs)" "first st \<longleftrightarrow> rs = []"
    "\<forall>r \<in> set rs. fst r \<le> snd r \<and> snd r < i" "in_range st \<longrightarrow> range_start st < i"
    "\<forall>j < i. test_mask_bit fmask j \<longleftrightarrow> covers rs j \<or> (in_range st \<and> range_start st \<le> j)"
    unfolding format_inv_def by auto
  have not_covered: "\<not> covers rs i" using rs(3) by (auto simp: covers_def)
  consider (opens) "test_mask_bit fmask i" "\<not> in_range st"
    | (closes) "\<not> test_mask_bit fmask i" "in_range st"
    | (inside) "test_mask_bit fmask i" "in_range st"
    | (outside) "\<not> test_mask_bit fmask i" "\<not> in_range st"
    by blast
  then show ?thesis
  proof cases
    case opens
    have "\<forall>j < i + 1. test_mask_bit fmask j \<longleftrightarrow> covers rs j \<or> i \<le> j"
      using rs(5) opens not_covered by (auto simp: less_Suc_eq)
    then show ?thesis
      using opens rs(1,2,3) ok unfolding format_inv_def
      by (intro impI exI [of _ rs]) auto
  next
    case closes
    obtain r b where w: "write_range (buffer st) (range_start st) (i - 1) (first st) = (r, b)"
      by (cases "write_range (buffer st) (range_start st) (i - 1) (first st)") auto
    show ?thesis
    proof (cases r)
      case False
      then show ?thesis using closes w by (simp add: format_inv_def)
    next
      case True
      have "format_inv fmask (i + 1)
          (st \<lparr>ok := True, in_range := False, first := False, buffer := b\<rparr>)"
        using inv ok closes(2) w True i closes(1)
        by (intro format_inv_close [where i = i]) (auto simp: less_Suc_eq)
      then show ?thesis using closes w True by simp
    qed
  next
    case inside
    have "\<forall>j < i + 1. test_mask_bit fmask j \<longleftrightarrow> covers rs j \<or> range_start st \<le> j"
      using rs(4,5) inside by (auto simp: less_Suc_eq)
    then show ?thesis
      using inside rs(1,2,3,4) ok unfolding format_inv_def
      by (intro impI exI [of _ rs]) auto
  next
    case outside
    have "\<forall>j < i + 1. test_mask_bit fmask j \<longleftrightarrow> covers rs j"
      using rs(5) outside not_covered by (auto simp: less_Suc_eq)
    then show ?thesis
      using outside rs(1,2,3) ok unfolding format_inv_def
      by (intro impI exI [of _ rs]) auto
  qed
qed

lemma format_loop_inv:
  "format_inv fmask i st \<Longrightarrow> i \<le> n \<Longrightarrow> n \<le> 2 ^ 31 \<Longrightarrow>
     format_inv fmask n (format_loop fmask n i st)"
proof (induction fmask n i st rule: format_loop.induct)
  case (1 fmask n i st)
  show ?case
  proof (cases "ok st \<and> i < n")
    case False
    then have "format_loop fmask n i st = st" by (subst format_loop.simps) auto
    moreover have "format_inv fmask n st"
    proof (cases "ok st")
      case True
      with False "1.prems" have "i = n" by simp
      with "1.prems" show ?thesis by simp
    next
      case False
      then show ?thesis by (simp add: format_inv_def)
    qed
    ultimately show ?thesis by simp
  next
    case True
    let ?st = "(if test_mask_bit fmask i \<and> \<not> in_range st
      then st \<lparr>in_range := True, range_start := i\<rparr>
      else if \<not> test_mask_bit fmask i \<and> in_range st
      then
        (let (r, b) = write_range (buffer st) (range_start st) (i - 1) (first st)
         in st \<lparr>ok := r, in_range := False, first := False, buffer := b\<rparr>)
      else st)"
    have step: "format_loop fmask n i st = format_loop fmask n (i + 1) ?st"
      using True by (subst format_loop.simps) simp
    have "i < 2 ^ 31" using True "1.prems" by simp
    then have "format_inv fmask (i + 1) ?st"
      using "1.prems"(1) True by (intro format_inv_step) simp_all
    then have "format_inv fmask n (format_loop fmask n (i + 1) ?st)"
      using True "1.prems" by (intro "1.IH") simp_all
    then show ?thesis unfolding step .
  qed
qed

lemma format_readable_mask_ranges:
  assumes f: "format_readable_mask fmask n len = (True, tx)" and n: "n \<le> 2 ^ 31"
  shows "\<exists>rs. tx = tl (render_more rs) \<and> (\<forall>r \<in> set rs. fst r \<le> snd r \<and> snd r < n) \<and>
     (\<forall>j < n. test_mask_bit fmask j \<longleftrightarrow> covers rs j)"
proof -
  define st where "st = format_loop fmask n 0
     \<lparr>ok = True, in_range = False, first = True, range_start = 0, buffer = ([], len)\<rparr>"
  have "format_inv fmask 0
     \<lparr>ok = True, in_range = False, first = True, range_start = 0, buffer = ([], len)\<rparr>"
    unfolding format_inv_def by (intro impI exI [of _ "[]"]) (simp add: render_more_def)
  then have inv: "format_inv fmask n st"
    unfolding st_def using n by (intro format_loop_inv) simp_all
  show ?thesis
  proof (cases "ok st \<and> in_range st")
    case True
    obtain r b where w: "write_range (buffer st) (range_start st) (n - 1) (first st) = (r, b)"
      by (cases "write_range (buffer st) (range_start st) (n - 1) (first st)") auto
    from f True w have r: "r" and b: "tx = fst b"
      by (simp_all add: format_readable_mask_def st_def [symmetric] Let_def)
    have "format_inv fmask n (st \<lparr>ok := True, in_range := False, first := False, buffer := b\<rparr>)"
      using inv True w r n by (intro format_inv_close [where i = n]) auto
    then show ?thesis using b unfolding format_inv_def by auto
  next
    case False
    with f have "ok st" "\<not> in_range st" "tx = fst (buffer st)"
      by (auto simp: format_readable_mask_def st_def [symmetric] Let_def)
    with inv show ?thesis unfolding format_inv_def by auto
  qed
qed

lemma nibble_of_hex_digit:
  assumes "k < 16"
  shows "nibble_of (hex_digit k) = Some k"
proof -
  from assms have "k = 0 \<or> k = 1 \<or> k = 2 \<or> k = 3 \<or> k = 4 \<or> k = 5 \<or> k = 6 \<or> k = 7 \<or>
      k = 8 \<or> k = 9 \<or> k = 10 \<or> k = 11 \<or> k = 12 \<or> k = 13 \<or> k = 14 \<or> k = 15"
    by arith
  then show ?thesis
    by (elim disjE) (simp_all add: hex_digit_def nibble_of_def)
qed

lemma join_nibbles:
  fixes b :: u8
  shows "(of_nat (push_bit 4 (unat b div 16)) :: u8) OR of_nat (unat b mod 16) = b"
proof -
  have d: "unat b div 16 = drop_bit 4 (unat b)" by (simp add: drop_bit_eq_div)
  have m: "unat b mod 16 = take_bit 4 (unat b)" by (simp add: take_bit_eq_mod)
  show ?thesis
    unfolding d m
    by (rule bit_eqI) (auto simp: bit_simps bit_unsigned_iff dest: bit_imp_le_length)
qed

lemma parse_raw_byte:
  assumes "n < length m" "m ! n = 0"
  shows "parse_raw_loop (2 * Suc n) (hex_byte b @ rest) m = parse_raw_loop (2 * n) rest (m [n := b])"
proof -
  have "unat b < 256" using unsigned_less [of b, where 'a = nat] by simp
  then have "unat b div 16 < 16" by simp
  then have hi: "nibble_of (hex_digit (unat b div 16)) = Some (unat b div 16)"
    by (rule nibble_of_hex_digit)
  have lo: "nibble_of (hex_digit (unat b mod 16)) = Some (unat b mod 16)"
    by (intro nibble_of_hex_digit) simp
  have s: "2 * Suc n = Suc (Suc (2 * n))" by simp
  show ?thesis
    unfolding s using assms hi lo join_nibbles [of b]
    by (simp add: hex_byte_def)
qed

lemma parse_raw_format_raw:
  "n \<le> length m \<Longrightarrow> n \<le> length fmask \<Longrightarrow> (\<forall>j < n. m ! j = 0) \<Longrightarrow>
   parse_raw_loop (2 * n) (format_raw_loop fmask n @ rest) m
     = (True, rest, take n fmask @ drop n m)"
proof (induction n arbitrary: m)
  case 0
  then show ?case by simp
next
  case (Suc n)
  have "parse_raw_loop (2 * Suc n) (format_raw_loop fmask (Suc n) @ rest) m
      = parse_raw_loop (2 * n) (format_raw_loop fmask n @ rest) (m [n := fmask ! n])"
    using Suc.prems parse_raw_byte [of n m "fmask ! n" "format_raw_loop fmask n @ rest"]
    by simp
  also have "\<dots> = (True, rest, take n fmask @ drop n (m [n := fmask ! n]))"
    using Suc.prems by (intro Suc.IH) simp_all
  also have "take n fmask @ drop n (m [n := fmask ! n]) = take (Suc n) fmask @ drop (Suc n) m"
    using Suc.prems by (simp add: take_Suc_conv_app_nth drop_update_swap Cons_nth_drop_Suc [symmetric] upd_conv_take_nth_drop)
  finally show ?case .
qed

lemma test_mask_bit_zero: "i < 8 * k \<Longrightarrow> \<not> test_mask_bit (replicate k 0) i"
  by (simp add: test_mask_bit_def)

lemma decimal_first_char: "\<exists>ch cs. decimal a = ch # cs \<and> is_digit ch"
  using decimal_not_empty [of a] decimal_digits [of a] by (cases "decimal a") auto

lemma readable_round_trip:
  assumes f: "format_readable_mask fmask n len = (True, tx)"
    and n: "n \<le> 8 * length fmask" "n < 2 ^ 31"
    and above: "\<forall>i. n \<le> i \<and> i < 8 * length fmask \<longrightarrow> \<not> test_mask_bit fmask i"
    and some: "1 \<le> count_mask_bits fmask n"
    and len: "length storage = length fmask"
  shows "parse_mask tx n storage = (True, [], fmask)"
proof -
  from format_readable_mask_ranges [OF f] n(2)
  obtain rs where rs: "tx = tl (render_more rs)" "\<forall>r \<in> set rs. fst r \<le> snd r \<and> snd r < n"
    "\<forall>j < n. test_mask_bit fmask j \<longleftrightarrow> covers rs j"
    by auto
  from some have "filter (test_mask_bit fmask) [0 ..< n] \<noteq> []"
    by (auto simp: count_mask_bits_def)
  then obtain j where "j < n" "test_mask_bit fmask j"
    by (auto simp: filter_empty_conv)
  with rs(3) have "covers rs j" by simp
  then obtain r0 rest where rs_eq: "rs = r0 # rest" by (cases rs) (auto simp: covers_def)
  have tx: "tx = render_range r0 @ render_more rest"
    unfolding rs(1) rs_eq by (simp add: render_more_def)
  obtain ch cs where ch: "decimal (fst r0) = ch # cs" "is_digit ch"
    using decimal_first_char by blast
  then have "ch \<noteq> CHR ''R''" by (auto simp: is_digit_def)
  then have no_R: "read_char tx CHR ''R'' = (False, tx)"
    unfolding tx using ch(1) by (simp add: read_char_def render_range_def)
  let ?zero = "replicate (length storage) (0 :: u8)"
  have "parse_ranges (render_range r0 @ render_more rest) n ?zero = (True, [], set_ranges ?zero (r0 # rest))"
    using rs(2) unfolding rs_eq by (rule parse_ranges_render)
  then have parsed: "parse_mask tx n storage = (True, [], set_ranges ?zero rs)"
    using no_R unfolding tx rs_eq by (simp add: parse_mask_def)
  have in_store: "\<forall>r \<in> set rs. snd r < 8 * length ?zero"
    using rs(2) n(1) len by auto
  have "set_ranges ?zero rs = fmask"
  proof (rule mask_eqI)
    show "length (set_ranges ?zero rs) = length fmask"
      using len by (simp add: length_set_ranges)
  next
    fix i assume "i < 8 * length (set_ranges ?zero rs)"
    then have i: "i < 8 * length fmask" using len by (simp add: length_set_ranges)
    have "test_mask_bit (set_ranges ?zero rs) i \<longleftrightarrow> covers rs i"
      using test_set_ranges [OF in_store, of i] i len
      by (simp add: covers_def test_mask_bit_zero)
    also have "\<dots> \<longleftrightarrow> test_mask_bit fmask i"
    proof (cases "i < n")
      case True
      then show ?thesis using rs(3) by simp
    next
      case False
      then have "\<not> covers rs i" using rs(2) by (auto simp: covers_def)
      moreover have "\<not> test_mask_bit fmask i" using False above i by simp
      ultimately show ?thesis by simp
    qed
    finally show "test_mask_bit (set_ranges ?zero rs) i = test_mask_bit fmask i" .
  qed
  with parsed show ?thesis by simp
qed

lemma raw_round_trip:
  assumes d: "8 dvd n" and n: "n \<le> 8 * length fmask"
    and above: "\<forall>i. n \<le> i \<and> i < 8 * length fmask \<longrightarrow> \<not> test_mask_bit fmask i"
    and len: "length storage = length fmask"
  shows "parse_mask (CHR ''R'' # fst (format_raw_mask fmask n)) n storage = (True, [], fmask)"
proof -
  define k where "k = n div 8"
  have nk: "n = 8 * k" using d by (auto simp: k_def)
  have k: "k \<le> length fmask" using n nk by simp
  have q: "n div 4 = 2 * k" unfolding nk by simp
  let ?zero = "replicate (length storage) (0 :: u8)"
  have "parse_raw_loop (2 * k) (format_raw_loop fmask k @ []) ?zero
      = (True, [], take k fmask @ drop k ?zero)"
    using k len by (intro parse_raw_format_raw) simp_all
  then have parsed: "parse_mask (CHR ''R'' # fst (format_raw_mask fmask n)) n storage
      = (True, [], take k fmask @ drop k ?zero)"
    by (simp add: parse_mask_def read_char_def parse_raw_mask_def format_raw_mask_def q k_def [symmetric])
  have "take k fmask @ drop k ?zero = fmask"
  proof (rule nth_equalityI)
    show "length (take k fmask @ drop k ?zero) = length fmask" using k len by simp
  next
    fix j assume "j < length (take k fmask @ drop k ?zero)"
    then have j: "j < length fmask" using k len by simp
    show "(take k fmask @ drop k ?zero) ! j = fmask ! j"
    proof (cases "j < k")
      case True
      then show ?thesis using k by (simp add: nth_append)
    next
      case False
      have "fmask ! j = 0"
      proof (rule bit_eqI)
        fix b
        show "bit (fmask ! j) b \<longleftrightarrow> bit (0 :: u8) b"
        proof (cases "b < 8")
          case True
          then have "(8 * j + b) div 8 = j" "(8 * j + b) mod 8 = b" by simp_all
          moreover have "n \<le> 8 * j + b" "8 * j + b < 8 * length fmask"
            using False nk j True by simp_all
          ultimately show ?thesis using above by (auto simp: test_mask_bit_def)
        next
          case False
          then show ?thesis by (auto dest: bit_imp_le_length)
        qed
      qed
      then show ?thesis using False k j len by (simp add: nth_append)
    qed
  qed
  with parsed show ?thesis by simp
qed

text \<open>
  C1, as a counterexample: a mask over 12 ids with ids 0, 2, 4 and 6 set.  The
  readable form does not fit into \<open>12 / 4\<close> characters, \<open>format_raw_mask\<close> writes the
  \<open>12 / 8 = 1\<close> whole byte as two digits, and \<open>parse_raw_mask\<close> asks for
  \<open>12 / 4 = 3\<close> digits and fails at the end of the string.
\<close>

theorem parse_format_mask_twelve_ids:
  "count_mask_bits [0x55, 0] 12 = 4 \<and>
   filter (test_mask_bit [0x55, 0]) [0 ..< 16] = [0, 2, 4, 6] \<and>
   snd (format_mask [0x55, 0] 12) = ''R55'' \<and>
   parse_mask (snd (format_mask [0x55, 0] 12)) 12 [0, 0] = (False, [], [0x50, 0x05])"
  by code_simp

text \<open>
  C1, amended: for a mask over \<open>n\<close> ids, \<open>n\<close> a multiple of 8, with at least one id
  set, parsing the string that \<open>format_mask\<close> leaves in the buffer succeeds, consumes
  the whole string and yields the mask again, whether the readable form or the raw
  form was written.  The mask is a whole number of bytes with no bit set at or above
  \<open>n\<close>; ids are printed with \<open>%d\<close>, so \<open>n\<close> is below \<open>2 ^ 31\<close>.
\<close>

theorem parse_format_mask:
  assumes "8 dvd n" and "n \<le> 8 * length fmask" and "n < 2 ^ 31"
    and "\<forall>i. n \<le> i \<and> i < 8 * length fmask \<longrightarrow> \<not> test_mask_bit fmask i"
    and "1 \<le> count_mask_bits fmask n"
    and "length storage = length fmask"
  shows "parse_mask (snd (format_mask fmask n)) n storage = (True, [], fmask)"
proof -
  obtain r tx where f: "format_readable_mask fmask n (n div 4) = (r, tx)"
    by (cases "format_readable_mask fmask n (n div 4)") auto
  show ?thesis
  proof (cases r)
    case True
    then have "snd (format_mask fmask n) = tx" using f by (simp add: format_mask_def)
    moreover have "parse_mask tx n storage = (True, [], fmask)"
      using f True assms by (intro readable_round_trip [where len = "n div 4"]) simp_all
    ultimately show ?thesis by simp
  next
    case False
    then have "snd (format_mask fmask n) = CHR ''R'' # fst (format_raw_mask fmask n)"
      using f by (simp add: format_mask_def split: prod.splits)
    then show ?thesis using assms by (simp add: raw_round_trip)
  qed
qed

theorem parse_format_mask_witness:
  "snd (format_mask example_mask 64) = ''0-3,15,18-20'' \<and>
   parse_mask ''0-3,15,18-20'' 64 (replicate 8 1) = (True, [], example_mask) \<and>
   snd (format_mask [0x55, 0, 0, 0] 16) = ''R0055'' \<and>
   parse_mask ''R0055'' 16 [1, 1, 1, 1] = (True, [], [0x55, 0, 0, 0])"
proof -
  have f1: "snd (format_mask example_mask 64) = ''0-3,15,18-20''" by code_simp
  have f2: "snd (format_mask [0x55, 0, 0, 0] 16) = ''R0055''" by code_simp
  have c1: "1 \<le> count_mask_bits example_mask 64" by code_simp
  have c2: "1 \<le> count_mask_bits [0x55, 0, 0, 0] 16" by code_simp
  have above: "\<forall>i. 16 \<le> i \<and> i < 8 * length [0x55, 0, 0, 0 :: u8] \<longrightarrow>
      \<not> test_mask_bit [0x55, 0, 0, 0] i"
  proof (intro allI impI)
    fix i :: nat assume "16 \<le> i \<and> i < 8 * length [0x55, 0, 0, 0 :: u8]"
    then have "i div 8 = 2 \<or> i div 8 = 3" by auto
    then show "\<not> test_mask_bit [0x55, 0, 0, 0] i"
      by (auto simp: test_mask_bit_def)
  qed
  have "parse_mask (snd (format_mask example_mask 64)) 64 (replicate 8 1) = (True, [], example_mask)"
    using c1 by (intro parse_format_mask) (auto simp: example_mask_def)
  moreover have "parse_mask (snd (format_mask [0x55, 0, 0, 0] 16)) 16 [1, 1, 1, 1]
      = (True, [], [0x55, 0, 0, 0])"
    using c2 above by (intro parse_format_mask) simp_all
  ultimately show ?thesis using f1 f2 by simp
qed

text \<open>
  C8, evaluated where the code departs from it: for the mask with ids 0, 2, 4 and 6 set
  among 16 ids the readable form \<open>0,2,4,6\<close> does not fit into \<open>16 / 4\<close> characters;
  \<open>format_mask\<close> writes \<open>R\<close> and the four hexadecimal characters \<open>0055\<close>, five
  characters in all, and returns 64, which is \<open>4 * fa_entry_count\<close>.
\<close>

theorem format_mask_return_value:
  "format_mask [0x55, 0x00] 16 = (64, ''R0055'') \<and> length ''R0055'' = 5"
  by code_simp


section \<open>The transform on a gap\<close>

lemma reset_accumulators:
  "n \<le> length accs \<Longrightarrow>
   foldl (\<lambda>accs i. accs [i := initialise_accum]) accs [0 ..< n]
     = replicate n initialise_accum @ drop n accs"
proof (induction n)
  case 0
  then show ?case by simp
next
  case (Suc n)
  then have n: "n < length accs" by simp
  have d: "drop n accs = accs ! n # drop (Suc n) accs"
    using n by (simp add: Cons_nth_drop_Suc)
  have "(replicate n initialise_accum @ drop n accs) [n := initialise_accum]
      = replicate n initialise_accum @ (drop n accs) [0 := initialise_accum]"
    by (simp add: list_update_append)
  also have "\<dots> = replicate n initialise_accum @ initialise_accum # drop (Suc n) accs"
    unfolding d by simp
  also have "\<dots> = replicate (Suc n) initialise_accum @ drop (Suc n) accs"
    by (simp add: replicate_app_Cons_same)
  finally show ?case using Suc by simp
qed

text \<open>
  C7: on the gap sentinel (a null block) \<open>process_block\<close> returns with
  \<open>fa_offset\<close>, \<open>d_offset\<close> and \<open>timestamp_index\<close> at zero, every
  double-decimation accumulator initialised again and the write cursor \<open>dd_offset\<close>
  back at the start of the current major block (an \<open>unsigned int\<close> product); the header (with
  \<open>current_major_block\<close>), the data index, both major buffers with the choice of
  the current one, the blocks handed to the writer and the \<open>DD\<close> area are as
  before.  The accumulator array has one accumulator for each archived id.
\<close>

theorem process_block_gap:
  assumes "length (double_accumulators st) = output_id_count st"
  shows "\<exists>st'. process_block fp None ts st = Inr st' \<and>
     fa_offset st' = 0 \<and> d_offset st' = 0 \<and> timestamp_index st' = 0 \<and>
     double_accumulators st' = replicate (output_id_count st) initialise_accum \<and>
     dd_offset st' =
       (current_major_block (t_header st) * dd_sample_count (t_header st)) mod 2 ^ 32 \<and>
     t_header st' = t_header st \<and> t_index st' = t_index st \<and>
     buffers st' = buffers st \<and> current_buffer st' = current_buffer st \<and>
     scheduled st' = scheduled st \<and> dd_area st' = dd_area st"
  using assms
  by (simp add: process_block_def reset_double_decimation_def reset_index_def reset_block_def
      reset_accumulators)

theorem process_block_gap_witness:
  "fa_offset example_transform = 1 \<and> timestamp_index example_transform = 1 \<and>
   double_accumulators example_transform \<noteq> replicate 2 initialise_accum \<and>
   (\<exists>st'. process_block double_ops None 2200000 example_transform = Inr st' \<and>
     fa_offset st' = 0 \<and> d_offset st' = 0 \<and> timestamp_index st' = 0 \<and>
     double_accumulators st' = replicate 2 initialise_accum \<and>
     dd_offset st' = 12 \<and>
     t_header st' = t_header example_transform \<and> t_index st' = t_index example_transform \<and>
     buffers st' = buffers example_transform \<and>
     current_buffer st' = current_buffer example_transform \<and>
     scheduled st' = scheduled example_transform \<and> dd_area st' = dd_area example_transform)"
proof -
  have h: "length (double_accumulators example_transform) = output_id_count example_transform"
    by (simp add: example_transform_def Let_def)
  have d: "fa_offset example_transform = 1" "timestamp_index example_transform = 1"
    "output_id_count example_transform = 2"
    "(current_major_block (t_header example_transform) *
        dd_sample_count (t_header example_transform)) mod 2 ^ 32 = 12"
    by (simp_all add: example_transform_def Let_def example_header_def)
  have dirty: "double_accumulators example_transform \<noteq> replicate 2 initialise_accum"
    by (simp add: example_transform_def Let_def accum_xy_def initialise_accum_def
        INT32_MAX_def INT32_MIN_def numeral_2_eq_2)
  from process_block_gap [OF h, of double_ops 2200000] d dirty show ?thesis by simp
qed


section \<open>The duration fitted by advance\_index\<close>

lemma ex_indexed:
  "foldl (\<lambda>s ts. index_minor_block [example_frame 100] ts s) example_fit
     [2100000, 2100001, 2100002, 2101000]
   = example_fit \<lparr>first_timestamp := 2100000,
       t_index := example_index [6 := (example_index ! 6) \<lparr>id_zero := 100\<rparr>],
       timestamp_array := [0, 1, 2, 1000], timestamp_index := 4\<rparr>"
  by (simp add: index_minor_block_def example_fit_def example_header_def example_frame_def Let_def upt_rec)

lemma ex_sums: "fit_sums 4 [0, 1, 2, 1000] = (1003, 3001)"
  by (simp add: fit_sums_def upt_rec s32_def s64_def Let_def)

text \<open>
  C3, as a counterexample: four minor blocks with the strictly increasing timestamps
  2100000, 2100001, 2100002 and 2101000.  The least-squares fit records the duration
  1200, while \<open>(t\<^sub>k - t\<^sub>1) * k / (k - 1)\<close> is 1000 * 4 / 3, more than 133 away.
\<close>

theorem advance_index_uneven_timestamps:
  "index_major_block double_ops [example_frame 100]
     [2100000, 2100001, 2100002, 2101000] example_fit = Inr 1200 \<and>
   \<not> \<bar>real_of_int 1200 - (2101000 - 2100000) * 4 / (4 - 1)\<bar> \<le> 1"
proof -
  have "index_major_block double_ops [example_frame 100]
     [2100000, 2100001, 2100002, 2101000] example_fit = Inr 1200"
    unfolding index_major_block_def ex_indexed
    by (simp add: advance_index_def example_fit_def ex_sums example_header_def s64_def Let_def
        example_index_def)
  then show ?thesis by simp
qed

lemma sum_it_closed: "6 * sum_it k n = int n * (int n - 1) * (4 * int n - 3 * int k + 1)"
proof (induction n)
  case 0
  then show ?case by (simp add: sum_it_def)
next
  case (Suc n)
  have "6 * sum_it k (Suc n) = 6 * sum_it k n + 6 * (int n * (2 * int n - int k + 1))"
    by (simp add: sum_it_def algebra_simps)
  also have "\<dots> = int n * (int n - 1) * (4 * int n - 3 * int k + 1)
      + 6 * (int n * (2 * int n - int k + 1))"
    using Suc by simp
  also have "\<dots> = int (Suc n) * (int (Suc n) - 1) * (4 * int (Suc n) - 3 * int k + 1)"
    by (simp add: algebra_simps)
  finally show ?case .
qed

lemma sum_it_full: "6 * sum_it k k = (int k - 1) * int k * (int k + 1)"
  using sum_it_closed [of k k] by (simp add: algebra_simps)

lemma sum_i_bounds: "0 \<le> sum_i n" "n \<le> k \<Longrightarrow> sum_i n \<le> int k * int k"
proof -
  show "0 \<le> sum_i n" by (simp add: sum_i_def sum_nonneg)
  assume nk: "n \<le> k"
  have "sum_i n \<le> (\<Sum>i < n. int k)"
    unfolding sum_i_def using nk by (intro sum_mono) simp
  also have "\<dots> = int n * int k" by simp
  also have "\<dots> \<le> int k * int k" using nk by (intro mult_right_mono) simp_all
  finally show "sum_i n \<le> int k * int k" .
qed

lemma term_bound:
  assumes "i < k"
  shows "\<bar>int i * (2 * int i - int k + 1)\<bar> \<le> int k * int k"
proof -
  have "\<bar>2 * int i - int k + 1\<bar> \<le> int k" using assms by simp
  moreover have "\<bar>int i\<bar> \<le> int k" using assms by simp
  ultimately have "\<bar>int i\<bar> * \<bar>2 * int i - int k + 1\<bar> \<le> int k * int k"
    by (intro mult_mono) simp_all
  then show ?thesis by (simp add: abs_mult)
qed

lemma sum_it_bound:
  assumes "n \<le> k"
  shows "\<bar>sum_it k n\<bar> \<le> int k * int k * int k"
proof -
  have "\<bar>sum_it k n\<bar> \<le> (\<Sum>i < n. \<bar>int i * (2 * int i - int k + 1)\<bar>)"
    unfolding sum_it_def by (rule sum_abs)
  also have "\<dots> \<le> (\<Sum>i < n. int k * int k)"
    using assms by (intro sum_mono term_bound) simp
  also have "\<dots> = int n * (int k * int k)" by simp
  also have "\<dots> \<le> int k * (int k * int k)"
    using assms by (intro mult_right_mono) simp_all
  finally show ?thesis by (simp add: mult.assoc)
qed


lemma scaled_bound:
  fixes d v c :: int
  assumes "0 \<le> d" "\<bar>v\<bar> \<le> c" "d * c < 2 ^ 63"
  shows "- (2 ^ 63) \<le> d * v" "d * v < 2 ^ 63"
proof -
  have "\<bar>d * v\<bar> = d * \<bar>v\<bar>" using assms(1) by (simp add: abs_mult)
  also have "\<dots> \<le> d * c" using assms(1,2) by (rule mult_left_mono [rotated]) 
  finally have "\<bar>d * v\<bar> < 2 ^ 63" using assms(3) by simp
  then show "- (2 ^ 63) \<le> d * v" "d * v < 2 ^ 63" by simp_all
qed

lemma fit_sums_even_step:
  fixes d :: int
  assumes k: "int k < 2 ^ 31" and d0: "0 \<le> d" and b: "d * (int k * int k * int k) < 2 ^ 63"
    and arr: "\<forall>i < k. arr ! i = int i * d" and n: "n \<le> k"
  shows "foldl (\<lambda>(sum_x, sum_xt) i.
              (let t = s32 (2 * int i - int k + 1);
                   v = arr ! i
               in (s64 (sum_x + v), s64 (sum_xt + s64 (v * t)))))
       (0, 0) [0 ..< n] = (d * sum_i n, d * sum_it k n)"
  using n
proof (induction n)
  case 0
  then show ?case by (simp add: sum_i_def sum_it_def)
next
  case (Suc n)
  then have nk: "n < k" and ih: "foldl (\<lambda>(sum_x, sum_xt) i.
              (let t = s32 (2 * int i - int k + 1);
                   v = arr ! i
               in (s64 (sum_x + v), s64 (sum_xt + s64 (v * t)))))
       (0, 0) [0 ..< n] = (d * sum_i n, d * sum_it k n)"
    by simp_all
  let ?t = "2 * int n - int k + 1"
  have k1: "1 \<le> int k" using nk by simp
  have kk: "int k * int k \<le> int k * int k * int k"
    using k1 by (simp add: mult_le_cancel_left1)
  have b2: "d * (int k * int k) < 2 ^ 63"
  proof -
    have "d * (int k * int k) \<le> d * (int k * int k * int k)"
      using d0 kk by (rule mult_left_mono [rotated])
    with b show ?thesis by simp
  qed
  have t: "s32 ?t = ?t" using nk k by (intro s32_id) simp_all
  have v: "arr ! n = int n * d" using arr nk by simp
  have vt: "int n * d * ?t = d * (int n * ?t)" by (simp add: algebra_simps)
  have p: "s64 (d * (int n * ?t)) = d * (int n * ?t)"
    using scaled_bound [OF d0 term_bound [OF nk] b2] by (intro s64_id)
  have sx: "d * sum_i n + int n * d = d * sum_i (Suc n)"
    by (simp add: sum_i_def algebra_simps)
  have sxt: "d * sum_it k n + d * (int n * ?t) = d * sum_it k (Suc n)"
    by (simp add: sum_it_def algebra_simps)
  have bx: "\<bar>sum_i (Suc n)\<bar> \<le> int k * int k"
    using sum_i_bounds(2) [of "Suc n" k] sum_i_bounds(1) [of "Suc n"] nk by simp
  have r1: "s64 (d * sum_i (Suc n)) = d * sum_i (Suc n)"
    using scaled_bound [OF d0 bx b2] by (intro s64_id)
  have bxt: "\<bar>sum_it k (Suc n)\<bar> \<le> int k * int k * int k"
    using nk by (intro sum_it_bound) simp
  have r2: "s64 (d * sum_it k (Suc n)) = d * sum_it k (Suc n)"
    using scaled_bound [OF d0 bxt b] by (intro s64_id)
  show ?case
    using ih by (simp add: Let_def t v vt p sx sxt r1 r2 del: sum.lessThan_Suc)
qed

lemma fit_sums_even:
  fixes d :: int
  assumes "int k < 2 ^ 31" "0 \<le> d" "d * (int k * int k * int k) < 2 ^ 63"
    and "\<forall>i < k. arr ! i = int i * d"
  shows "fit_sums k arr = (d * sum_i k, d * sum_it k k)"
  unfolding fit_sums_def using assms by (intro fit_sums_even_step) simp_all

lemma relative_timestamp:
  assumes "n < 2 ^ 31"
  shows "sint (ucast ((t1 + of_nat n) - t1 :: u64) :: u32) = int n"
proof -
  have "ucast (of_nat n :: u64) = (of_nat n :: u32)"
    by (rule bit_word_eqI) (auto simp add: bit_simps)
  moreover have "sint (of_nat n :: u32) = int n"
    using assms by (simp add: signed_of_nat signed_take_bit_int_eq_self)
  ultimately show ?thesis by simp
qed


lemma index_minor_block_frame:
  "t_header (index_minor_block block ts st) = t_header st"
  "timestamp_count (index_minor_block block ts st) = timestamp_count st"
  "length (t_index (index_minor_block block ts st)) = length (t_index st)"
  "length (timestamp_array (index_minor_block block ts st)) = length (timestamp_array st)"
  "timestamp_index (index_minor_block block ts st) = timestamp_index st + 1"
  by (simp_all add: index_minor_block_def Let_def)

lemma index_minor_block_first:
  "timestamp_index st = 0 \<Longrightarrow> first_timestamp (index_minor_block block ts st) = ts"
  "timestamp_index st = 0 \<Longrightarrow>
     timestamp_array (index_minor_block block ts st) = (timestamp_array st) [0 := 0]"
  by (simp_all add: index_minor_block_def Let_def)

lemma index_minor_block_next:
  "timestamp_index st \<noteq> 0 \<Longrightarrow>
     first_timestamp (index_minor_block block ts st) = first_timestamp st"
  "timestamp_index st \<noteq> 0 \<Longrightarrow>
     timestamp_array (index_minor_block block ts st)
       = (timestamp_array st) [timestamp_index st := sint (ucast (ts - first_timestamp st) :: u32)]"
  by (simp_all add: index_minor_block_def Let_def)

lemma indexed_even:
  assumes i0: "timestamp_index st = 0" and len: "length (timestamp_array st) = k"
    and kd: "k * d < 2 ^ 31" and n: "n \<le> k"
  shows "timestamp_index (foldl (\<lambda>s ts. index_minor_block block ts s) st (even_timestamps t1 d n)) = n
    \<and> (0 < n \<longrightarrow> first_timestamp (foldl (\<lambda>s ts. index_minor_block block ts s) st (even_timestamps t1 d n)) = t1)
    \<and> (\<forall>i < n. timestamp_array (foldl (\<lambda>s ts. index_minor_block block ts s) st (even_timestamps t1 d n)) ! i = int i * int d)
    \<and> length (timestamp_array (foldl (\<lambda>s ts. index_minor_block block ts s) st (even_timestamps t1 d n))) = k
    \<and> t_header (foldl (\<lambda>s ts. index_minor_block block ts s) st (even_timestamps t1 d n)) = t_header st
    \<and> timestamp_count (foldl (\<lambda>s ts. index_minor_block block ts s) st (even_timestamps t1 d n)) = timestamp_count st
    \<and> length (t_index (foldl (\<lambda>s ts. index_minor_block block ts s) st (even_timestamps t1 d n))) = length (t_index st)"
  using n
proof (induction n)
  case 0
  then show ?case using i0 len by (simp add: even_timestamps_def)
next
  case (Suc n)
  let ?s = "foldl (\<lambda>s ts. index_minor_block block ts s) st (even_timestamps t1 d n)"
  let ?ts = "t1 + of_nat (n * d) :: u64"
  have step: "foldl (\<lambda>s ts. index_minor_block block ts s) st (even_timestamps t1 d (Suc n))
      = index_minor_block block ?ts ?s"
    by (simp add: even_timestamps_def)
  from Suc have nk: "n < k" and ih:
    "timestamp_index ?s = n" "0 < n \<longrightarrow> first_timestamp ?s = t1"
    "\<forall>i < n. timestamp_array ?s ! i = int i * int d"
    "length (timestamp_array ?s) = k" "t_header ?s = t_header st"
    "timestamp_count ?s = timestamp_count st" "length (t_index ?s) = length (t_index st)"
    by simp_all
  have "n * d \<le> k * d" using nk by simp
  then have nd: "n * d < 2 ^ 31" using kd by (rule le_less_trans)
  have rel: "sint (ucast (?ts - t1) :: u32) = int (n * d)"
    using nd by (rule relative_timestamp)
  have first: "first_timestamp (index_minor_block block ?ts ?s) = t1"
    using ih(1,2) by (cases "n = 0") (simp_all add: index_minor_block_first index_minor_block_next)
  have arr: "timestamp_array (index_minor_block block ?ts ?s) = (timestamp_array ?s) [n := int n * int d]"
  proof (cases "n = 0")
    case True
    then show ?thesis using ih(1) by (simp add: index_minor_block_first)
  next
    case False
    then show ?thesis using ih(1,2) rel by (simp add: index_minor_block_next)
  qed
  have "\<forall>i < Suc n. (timestamp_array ?s) [n := int n * int d] ! i = int i * int d"
    using ih(3,4) nk by (auto simp add: nth_list_update)
  then have elems: "\<forall>i < Suc n. timestamp_array (index_minor_block block ?ts ?s) ! i = int i * int d"
    unfolding arr .
  have c1: "timestamp_index (index_minor_block block ?ts ?s) = Suc n"
    unfolding index_minor_block_frame using ih(1) by simp
  have c4: "length (timestamp_array (index_minor_block block ?ts ?s)) = k"
    unfolding index_minor_block_frame using ih(4) .
  have c5: "t_header (index_minor_block block ?ts ?s) = t_header st"
    unfolding index_minor_block_frame using ih(5) .
  have c6: "timestamp_count (index_minor_block block ?ts ?s) = timestamp_count st"
    unfolding index_minor_block_frame using ih(6) .
  have c7: "length (t_index (index_minor_block block ?ts ?s)) = length (t_index st)"
    unfolding index_minor_block_frame using ih(7) .
  show ?case
    unfolding step using c1 first elems c4 c5 c6 c7 by blast
qed


lemma fit_arithmetic:
  fixes K D :: int
  assumes K: "2 \<le> K" and D: "1 \<le> D" and b: "D * K ^ 4 < 2 ^ 63" and S: "6 * S = (K - 1) * K * (K + 1)"
  shows "0 < S"
    and "take_bit 64 (take_bit 64 (take_bit 64 (K * K) - 1) * K) div 3 = 2 * S"
    and "take_bit 64 (s64 (2 * K * (D * S))) div (2 * S) = K * D"
    and "D * (K * K * K) < 2 ^ 63"
proof -
  have K0: "0 < K" "1 \<le> K" using K by simp_all
  have K4: "K ^ 4 < 2 ^ 63"
  proof -
    have "1 * K ^ 4 \<le> D * K ^ 4" using D by (intro mult_right_mono) simp_all
    with b show ?thesis by simp
  qed
  have K2: "K * K \<le> K ^ 4"
    using power_increasing [of 2 4 K] K0 by (simp add: power2_eq_square)
  have K3: "K * K * K \<le> K ^ 4"
    using power_increasing [of 3 4 K] K0 by (simp add: power3_eq_cube)
  have "2 * 2 \<le> K * K" using K by (intro mult_mono) simp_all
  then have sq: "3 \<le> K * K - 1" by simp
  have S6: "6 * S = (K * K - 1) * K" using S by (simp add: algebra_simps)
  have "0 < (K * K - 1) * K" using sq K0 by (intro mult_pos_pos) simp_all
  with S6 show S0: "0 < S" by simp
  have le3: "(K * K - 1) * K \<le> K * K * K"
    using K0 by (simp add: algebra_simps)
  have e1: "take_bit 64 (K * K) = K * K"
    using K2 K4 sq by (intro take_bit_id) simp_all
  have e2: "take_bit 64 (K * K - 1) = K * K - 1"
    using K2 K4 sq by (intro take_bit_id) simp_all
  have e3: "take_bit 64 ((K * K - 1) * K) = 6 * S"
    unfolding S6 [symmetric] using S0 le3 K3 K4 S6 by (intro take_bit_id) simp_all
  show "take_bit 64 (take_bit 64 (take_bit 64 (K * K) - 1) * K) div 3 = 2 * S"
    unfolding e1 e2 e3 by simp
  have DK2: "D * (K * K) \<le> D * K ^ 4"
    using K2 D by (intro mult_left_mono) simp_all
  have P3: "3 * (2 * K * (D * S)) = D * K ^ 4 - D * (K * K)"
  proof -
    have "3 * (2 * K * (D * S)) = K * D * (6 * S)" by simp
    also have "\<dots> = D * K ^ 4 - D * (K * K)"
      unfolding S6 by (simp add: algebra_simps power4_eq_xxxx)
    finally show ?thesis .
  qed
  have DK0: "0 \<le> D * (K * K)" using D by simp
  have P0: "0 \<le> 2 * K * (D * S)" using K0 D S0 by simp
  have P: "2 * K * (D * S) < 2 ^ 63"
    using P3 P0 DK0 b by linarith
  have q1: "s64 (2 * K * (D * S)) = 2 * K * (D * S)"
    using P0 P by (intro s64_id) simp_all
  have q2: "take_bit 64 (2 * K * (D * S)) = 2 * K * (D * S)"
    using P0 P by (intro take_bit_id) simp_all
  have q3: "2 * K * (D * S) = K * D * (2 * S)" by simp
  have q4: "K * D * (2 * S) div (2 * S) = K * D"
    using S0 by (intro nonzero_mult_div_cancel_right) simp
  show "take_bit 64 (s64 (2 * K * (D * S))) div (2 * S) = K * D"
    unfolding q1 q2 unfolding q3 by (rule q4)
  have "D * (K * K * K) \<le> D * K ^ 4" using K3 D by (intro mult_left_mono) simp_all
  with b show "D * (K * K * K) < 2 ^ 63" by simp
qed


lemma advance_index_even:
  assumes fit: "fit_sums k (timestamp_array st) = (sx, int d * sum_it k k)"
    and count: "timestamp_count st = k" and k2: "2 \<le> k" and d1: "1 \<le> d"
    and b: "d * k ^ 4 < 2 ^ 63" and kd: "k * d < 2 ^ 31"
    and mbc: "0 < major_block_count (t_header st)"
    and cur: "current_major_block (t_header st) < length (t_index st)"
  shows "\<exists>st'. advance_index fp st = Inr st' \<and>
           uint (duration (t_index st' ! current_major_block (t_header st))) = int (k * d)"
proof -
  have K: "2 \<le> int k" and D: "1 \<le> int d" using k2 d1 by simp_all
  have "int (d * k ^ 4) < 2 ^ 63" using b by (simp only: of_nat_less_numeral_power_cancel_iff)
  then have B: "int d * int k ^ 4 < 2 ^ 63" by simp
  have S: "6 * sum_it k k = (int k - 1) * int k * (int k + 1)" by (rule sum_it_full)
  note ar = fit_arithmetic [OF K D B S]
  have "k * 1 \<le> k * d" using d1 by (intro mult_le_mono) simp_all
  then have "k \<le> k * d" by simp
  then have k31: "k < 2 ^ 31" using kd by (rule le_less_trans)
  have k32: "take_bit 32 (2 * int k) = 2 * int k"
    using k31 by (intro take_bit_id) simp_all
  have "int (k * d) < 2 ^ 31" using kd by (simp only: of_nat_less_numeral_power_cancel_iff)
  then have kd': "int k * int d < 2 ^ 31" by simp
  have dur: "take_bit 32 (int k * int d) = int k * int d"
    using kd' by (intro take_bit_id) simp_all
  have "uint (word_of_int x :: u32) = take_bit 32 x" for x
    by (simp add: uint_word_of_int take_bit_eq_mod)
  then have "uint (word_of_int (int k * int d) :: u32) = int k * int d"
    by (simp only: dur)
  then have u: "uint (word_of_nat k * word_of_nat d :: u32) = int k * int d"
    by simp
  have nz: "2 * sum_it k k \<noteq> 0" "k \<noteq> 0" "major_block_count (t_header st) \<noteq> 0"
    using ar(1) k2 mbc by simp_all
  show ?thesis
    unfolding advance_index_def count
    using nz cur by (simp add: Let_def fit ar(2) k32 ar(3) dur u)
qed


text \<open>
  Evenly spaced timestamps, \<open>t\<^sub>i = t\<^sub>1 + (i - 1) * d\<close> with \<open>d\<close> at least 1: the fit
  is exact and the duration recorded is \<open>k * d\<close>, where the end points give the same
  value \<open>(t\<^sub>k - t\<^sub>1) * k / (k - 1)\<close>.
\<close>

theorem advance_index_even_timestamps:
  assumes i0: "timestamp_index st = 0" and count: "timestamp_count st = k"
    and len: "length (timestamp_array st) = k" and k2: "2 \<le> k" and d1: "1 \<le> d"
    and b: "d * k ^ 4 < 2 ^ 63" and kd: "k * d < 2 ^ 31"
    and mbc: "0 < major_block_count (t_header st)"
    and cur: "current_major_block (t_header st) < length (t_index st)"
  shows "index_major_block fp block (even_timestamps t1 d k) st = Inr (int (k * d)) \<and>
         real (k * d) = real ((k - 1) * d) * real k / real (k - 1)"
proof -
  let ?s = "foldl (\<lambda>s ts. index_minor_block block ts s) st (even_timestamps t1 d k)"
  have inv: "\<forall>i < k. timestamp_array ?s ! i = int i * int d" "t_header ?s = t_header st"
    "timestamp_count ?s = timestamp_count st" "length (t_index ?s) = length (t_index st)"
    using indexed_even [OF i0 len kd le_refl, of block t1] by simp_all
  have K: "2 \<le> int k" and D: "1 \<le> int d" using k2 d1 by simp_all
  have "int (d * k ^ 4) < 2 ^ 63" using b by (simp only: of_nat_less_numeral_power_cancel_iff)
  then have B: "int d * int k ^ 4 < 2 ^ 63" by simp
  have b3: "int d * (int k * int k * int k) < 2 ^ 63"
    by (rule fit_arithmetic(4) [OF K D B sum_it_full])
  have "k * 1 \<le> k * d" using d1 by (intro mult_le_mono) simp_all
  then have "k \<le> k * d" by simp
  then have "k < 2 ^ 31" using kd by (rule le_less_trans)
  then have k31: "int k < 2 ^ 31" by simp
  have d0: "0 \<le> int d" by simp
  have fit: "fit_sums k (timestamp_array ?s) = (int d * sum_i k, int d * sum_it k k)"
    using k31 d0 b3 inv(1) by (rule fit_sums_even)
  obtain st' where st': "advance_index fp ?s = Inr st'"
    "uint (duration (t_index st' ! current_major_block (t_header ?s))) = int (k * d)"
    using advance_index_even [of k ?s "int d * sum_i k" d fp, OF fit _ k2 d1 b kd]
      count mbc cur inv(2,3,4) by auto
  have r: "index_major_block fp block (even_timestamps t1 d k) st = Inr (int (k * d))"
    unfolding index_major_block_def st'(1) using st'(2) inv(2) by simp
  have k1: "real (k - 1) \<noteq> 0" using k2 by simp
  have "real (k * d) = real ((k - 1) * d) * real k / real (k - 1)"
    using k1 by (simp add: field_simps)
  with r show ?thesis by (rule conjI)
qed

theorem advance_index_even_timestamps_witness:
  "even_timestamps 2100000 100 4 = [2100000, 2100100, 2100200, 2100300] \<and>
   index_major_block double_ops [example_frame 100] (even_timestamps 2100000 100 4) example_fit
     = Inr 400 \<and>
   real (4 * 100) = real ((4 - 1) * 100) * real 4 / real (4 - 1)"
  using advance_index_even_timestamps [of example_fit 4 100 double_ops "[example_frame 100]" 2100000]
  by (simp add: example_fit_def example_header_def example_index_def even_timestamps_def upt_rec)

lemma relative_timestamp_uint:
  fixes a b :: u64
  assumes le: "uint a \<le> uint b" and d: "uint b - uint a < 2 ^ 31"
  shows "sint (ucast (b - a) :: u32) = uint b - uint a"
proof -
  define n where "n = nat (uint b - uint a)"
  have n: "int n = uint b - uint a" using le by (simp add: n_def)
  have "n < 2 ^ 31" using d n by (simp add: n_def nat_less_iff)
  then have r: "sint (ucast ((a + of_nat n) - a :: u64) :: u32) = int n"
    by (rule relative_timestamp)
  have "(of_nat n :: u64) = word_of_int (uint b - uint a)"
    using n by (metis of_int_of_nat_eq)
  also have "\<dots> = b - a" by simp
  finally have "a + of_nat n = b" by simp
  with r n show ?thesis by simp
qed

lemma indexed_timestamps:
  assumes i0: "timestamp_index st = 0" and len: "length (timestamp_array st) = k"
    and lt: "length tss = k"
    and rel: "\<forall>i < k. uint (tss ! 0) \<le> uint (tss ! i) \<and> uint (tss ! i) - uint (tss ! 0) < 2 ^ 31"
    and n: "n \<le> k"
  shows "timestamp_index (foldl (\<lambda>s ts. index_minor_block block ts s) st (take n tss)) = n
    \<and> (0 < n \<longrightarrow> first_timestamp (foldl (\<lambda>s ts. index_minor_block block ts s) st (take n tss)) = tss ! 0)
    \<and> (\<forall>i < n. timestamp_array (foldl (\<lambda>s ts. index_minor_block block ts s) st (take n tss)) ! i
                 = uint (tss ! i) - uint (tss ! 0))
    \<and> length (timestamp_array (foldl (\<lambda>s ts. index_minor_block block ts s) st (take n tss))) = k
    \<and> t_header (foldl (\<lambda>s ts. index_minor_block block ts s) st (take n tss)) = t_header st
    \<and> timestamp_count (foldl (\<lambda>s ts. index_minor_block block ts s) st (take n tss)) = timestamp_count st
    \<and> length (t_index (foldl (\<lambda>s ts. index_minor_block block ts s) st (take n tss))) = length (t_index st)"
  using n
proof (induction n)
  case 0
  then show ?case using i0 len by simp
next
  case (Suc n)
  let ?s = "foldl (\<lambda>s ts. index_minor_block block ts s) st (take n tss)"
  let ?ts = "tss ! n"
  from Suc have nk: "n < k" by simp
  have step: "foldl (\<lambda>s ts. index_minor_block block ts s) st (take (Suc n) tss)
      = index_minor_block block ?ts ?s"
    using nk lt by (simp add: take_Suc_conv_app_nth)
  from Suc have ih:
    "timestamp_index ?s = n" "0 < n \<longrightarrow> first_timestamp ?s = tss ! 0"
    "\<forall>i < n. timestamp_array ?s ! i = uint (tss ! i) - uint (tss ! 0)"
    "length (timestamp_array ?s) = k" "t_header ?s = t_header st"
    "timestamp_count ?s = timestamp_count st" "length (t_index ?s) = length (t_index st)"
    by simp_all
  have rel_n: "sint (ucast (?ts - tss ! 0) :: u32) = uint ?ts - uint (tss ! 0)"
    using rel nk by (intro relative_timestamp_uint) simp_all
  have first: "first_timestamp (index_minor_block block ?ts ?s) = tss ! 0"
    using ih(1,2) by (cases "n = 0") (simp_all add: index_minor_block_first index_minor_block_next)
  have arr: "timestamp_array (index_minor_block block ?ts ?s)
      = (timestamp_array ?s) [n := uint ?ts - uint (tss ! 0)]"
  proof (cases "n = 0")
    case True
    then show ?thesis using ih(1) by (simp add: index_minor_block_first)
  next
    case False
    then show ?thesis using ih(1,2) rel_n by (simp add: index_minor_block_next)
  qed
  have "\<forall>i < Suc n. (timestamp_array ?s) [n := uint ?ts - uint (tss ! 0)] ! i
      = uint (tss ! i) - uint (tss ! 0)"
    using ih(3,4) nk by (auto simp add: nth_list_update less_Suc_eq)
  then have elems: "\<forall>i < Suc n. timestamp_array (index_minor_block block ?ts ?s) ! i
      = uint (tss ! i) - uint (tss ! 0)"
    unfolding arr .
  have c1: "timestamp_index (index_minor_block block ?ts ?s) = Suc n"
    unfolding index_minor_block_frame using ih(1) by simp
  have c4: "length (timestamp_array (index_minor_block block ?ts ?s)) = k"
    unfolding index_minor_block_frame using ih(4) .
  have c5: "t_header (index_minor_block block ?ts ?s) = t_header st"
    unfolding index_minor_block_frame using ih(5) .
  have c6: "timestamp_count (index_minor_block block ?ts ?s) = timestamp_count st"
    unfolding index_minor_block_frame using ih(6) .
  have c7: "length (t_index (index_minor_block block ?ts ?s)) = length (t_index st)"
    unfolding index_minor_block_frame using ih(7) .
  show ?case
    unfolding step using c1 first elems c4 c5 c6 c7 by blast
qed


lemma fit_sums_step:
  fixes D :: int
  assumes k: "int k < 2 ^ 31" and b: "D * (int k * int k) < 2 ^ 63"
    and arr: "\<forall>i < k. 0 \<le> arr ! i \<and> arr ! i \<le> D" and n: "n \<le> k"
  shows "foldl (\<lambda>(sum_x, sum_xt) i.
              (let t = s32 (2 * int i - int k + 1);
                   v = arr ! i
               in (s64 (sum_x + v), s64 (sum_xt + s64 (v * t)))))
       (0, 0) [0 ..< n] = (\<Sum>i < n. arr ! i, \<Sum>i < n. arr ! i * (2 * int i - int k + 1))
    \<and> \<bar>\<Sum>i < n. arr ! i\<bar> \<le> int n * D
    \<and> \<bar>\<Sum>i < n. arr ! i * (2 * int i - int k + 1)\<bar> \<le> int n * (D * int k)"
  using n
proof (induction n)
  case 0
  then show ?case by simp
next
  case (Suc n)
  let ?t = "2 * int n - int k + 1"
  let ?X = "\<Sum>i < n. arr ! i" and ?S = "\<Sum>i < n. arr ! i * (2 * int i - int k + 1)"
  from Suc have nk: "n < k" and ih: "foldl (\<lambda>(sum_x, sum_xt) i.
              (let t = s32 (2 * int i - int k + 1);
                   v = arr ! i
               in (s64 (sum_x + v), s64 (sum_xt + s64 (v * t)))))
       (0, 0) [0 ..< n] = (?X, ?S)"
    "\<bar>?X\<bar> \<le> int n * D" "\<bar>?S\<bar> \<le> int n * (D * int k)"
    by simp_all
  have v: "0 \<le> arr ! n" "arr ! n \<le> D" using arr nk by simp_all
  then have D0: "0 \<le> D" by simp
  have k1: "1 \<le> int k" using nk by simp
  have t: "s32 ?t = ?t" using nk k by (intro s32_id) simp_all
  have ta: "\<bar>?t\<bar> \<le> int k" using nk by simp
  have vt: "\<bar>arr ! n * ?t\<bar> \<le> D * int k"
  proof -
    have "\<bar>arr ! n * ?t\<bar> = arr ! n * \<bar>?t\<bar>" using v(1) by (simp add: abs_mult)
    also have "\<dots> \<le> D * int k" using v ta by (intro mult_mono) simp_all
    finally show ?thesis .
  qed
  have Dk: "D * int k \<le> D * (int k * int k)"
    using D0 k1 by (intro mult_left_mono) (simp_all add: mult_le_cancel_left1)
  have DD: "D \<le> D * int k" using D0 k1 by (simp add: mult_le_cancel_left1)
  have nD: "int (Suc n) * (D * int k) \<le> D * (int k * int k)"
  proof -
    have "int (Suc n) * (D * int k) \<le> int k * (D * int k)"
      using nk D0 by (intro mult_right_mono) simp_all
    then show ?thesis by (simp add: mult.commute mult.left_commute)
  qed
  have p: "s64 (arr ! n * ?t) = arr ! n * ?t"
    using vt Dk b by (intro s64_id) simp_all
  have bx: "\<bar>?X + arr ! n\<bar> \<le> int (Suc n) * D"
    using ih(2) v by (simp add: algebra_simps)
  have bs: "\<bar>?S + arr ! n * ?t\<bar> \<le> int (Suc n) * (D * int k)"
    using ih(3) vt by (simp add: algebra_simps)
  have nD2: "int (Suc n) * D \<le> D * (int k * int k)"
  proof -
    have "int (Suc n) * D \<le> int (Suc n) * (D * int k)"
      using DD by (intro mult_left_mono) simp_all
    then show ?thesis using nD by (rule order_trans)
  qed
  have r1: "s64 (?X + arr ! n) = ?X + arr ! n"
    using bx nD2 b by (intro s64_id) simp_all
  have r2: "s64 (?S + arr ! n * ?t) = ?S + arr ! n * ?t"
    using bs nD b by (intro s64_id) simp_all
  have fold: "foldl (\<lambda>(sum_x, sum_xt) i.
              (let t = s32 (2 * int i - int k + 1);
                   v = arr ! i
               in (s64 (sum_x + v), s64 (sum_xt + s64 (v * t)))))
       (0, 0) [0 ..< Suc n] = (?X + arr ! n, ?S + arr ! n * ?t)"
    using ih(1) by (simp add: Let_def t p r1 r2)
  show ?case
    unfolding fold using bx bs by simp
qed


lemma abs_offsets_step:
  "(\<Sum>i < Suc (Suc k). \<bar>2 * int i - int (Suc (Suc k)) + 1\<bar>)
     = (\<Sum>i < k. \<bar>2 * int i - int k + 1\<bar>) + 2 * int k + 2"
proof -
  have "(\<Sum>i < Suc (Suc k). \<bar>2 * int i - int (Suc (Suc k)) + 1\<bar>)
      = \<bar>2 * int 0 - int (Suc (Suc k)) + 1\<bar>
        + (\<Sum>i < Suc k. \<bar>2 * int (Suc i) - int (Suc (Suc k)) + 1\<bar>)"
    by (rule sum.lessThan_Suc_shift)
  also have "(\<Sum>i < Suc k. \<bar>2 * int (Suc i) - int (Suc (Suc k)) + 1\<bar>)
      = (\<Sum>i < Suc k. \<bar>2 * int i - int k + 1\<bar>)"
    by (intro sum.cong) (simp_all add: algebra_simps)
  also have "\<dots> = (\<Sum>i < k. \<bar>2 * int i - int k + 1\<bar>) + \<bar>2 * int k - int k + 1\<bar>"
    by simp
  finally show ?thesis by simp
qed

lemma abs_offsets_bound:
  "2 * (\<Sum>i < k. \<bar>2 * int i - int k + 1\<bar>) \<le> int k * int k
   \<and> 2 * (\<Sum>i < Suc k. \<bar>2 * int i - int (Suc k) + 1\<bar>) \<le> int (Suc k) * int (Suc k)"
proof (induction k)
  case 0
  then show ?case by simp
next
  case (Suc k)
  have "2 * (\<Sum>i < Suc (Suc k). \<bar>2 * int i - int (Suc (Suc k)) + 1\<bar>)
      = 2 * (\<Sum>i < k. \<bar>2 * int i - int k + 1\<bar>) + 4 * int k + 4"
    unfolding abs_offsets_step by simp
  also have "\<dots> \<le> int k * int k + 4 * int k + 4" using Suc by simp
  also have "\<dots> = int (Suc (Suc k)) * int (Suc (Suc k))" by (simp add: algebra_simps)
  finally show ?case using Suc by blast
qed

lemma fit_pairing:
  fixes x :: "nat \<Rightarrow> int"
  shows "2 * (\<Sum>i < k. x i * (2 * int i - int k + 1))
       = (\<Sum>i < k. (x i - x (k - Suc i)) * (2 * int i - int k + 1))"
proof -
  let ?g = "\<lambda>i. x i * (2 * int i - int k + 1)"
  have "(\<Sum>i < k. ?g i) = (\<Sum>i < k. ?g (k - Suc i))"
    by (rule sum.nat_diff_reindex [symmetric])
  also have "\<dots> = (\<Sum>i < k. - (x (k - Suc i) * (2 * int i - int k + 1)))"
  proof (intro sum.cong refl)
    fix i assume "i \<in> {..< k}"
    then have "int (k - Suc i) = int k - 1 - int i" by auto
    then show "?g (k - Suc i) = - (x (k - Suc i) * (2 * int i - int k + 1))"
      by (simp add: algebra_simps)
  qed
  finally have r: "(\<Sum>i < k. ?g i) = - (\<Sum>i < k. x (k - Suc i) * (2 * int i - int k + 1))"
    by (simp add: sum_negf)
  have "(\<Sum>i < k. (x i - x (k - Suc i)) * (2 * int i - int k + 1))
      = (\<Sum>i < k. ?g i) - (\<Sum>i < k. x (k - Suc i) * (2 * int i - int k + 1))"
    by (simp add: left_diff_distrib sum_subtractf)
  with r show ?thesis by simp
qed

lemma fit_slope_bounds:
  fixes x :: "nat \<Rightarrow> int"
  assumes mono: "\<forall>i j. i \<le> j \<and> j < k \<longrightarrow> x i \<le> x j"
    and range: "\<forall>i < k. 0 \<le> x i \<and> x i \<le> D"
  shows "0 \<le> (\<Sum>i < k. x i * (2 * int i - int k + 1))"
    and "4 * (\<Sum>i < k. x i * (2 * int i - int k + 1)) \<le> D * (int k * int k)"
proof -
  let ?S = "\<Sum>i < k. x i * (2 * int i - int k + 1)"
  let ?h = "\<lambda>i. (x i - x (k - Suc i)) * (2 * int i - int k + 1)"
  have tm: "0 \<le> ?h i \<and> ?h i \<le> D * \<bar>2 * int i - int k + 1\<bar>" if i: "i < k" for i
  proof -
    have ki: "k - Suc i < k" using i by simp
    have r1: "0 \<le> x i" "x i \<le> D" using range i by blast+
    have r2: "0 \<le> x (k - Suc i)" "x (k - Suc i) \<le> D" using range ki by blast+
    show ?thesis
    proof (cases "k - Suc i \<le> i")
    case True
    then have t: "0 \<le> 2 * int i - int k + 1" using i by auto
    have d: "0 \<le> x i - x (k - Suc i)" using mono True i by simp
    have "x i - x (k - Suc i) \<le> D" using r1 r2 by linarith
    then have "?h i \<le> D * (2 * int i - int k + 1)" using t by (intro mult_right_mono)
    then show ?thesis using t d by simp
  next
    case False
    then have t: "2 * int i - int k + 1 \<le> 0" using i by auto
    have d: "x i - x (k - Suc i) \<le> 0" using mono False ki by simp
    have "- D \<le> x i - x (k - Suc i)" using r1 r2 by linarith
    then have "(x i - x (k - Suc i)) * (2 * int i - int k + 1) \<le> - D * (2 * int i - int k + 1)"
      using t by (intro mult_right_mono_neg)
    moreover have "0 \<le> ?h i" using d t by (rule mult_nonpos_nonpos)
    moreover have "- D * (2 * int i - int k + 1) = D * \<bar>2 * int i - int k + 1\<bar>"
      unfolding abs_of_nonpos [OF t] by (simp add: algebra_simps)
    ultimately show ?thesis by simp
  qed
  qed
  have two: "2 * ?S = (\<Sum>i < k. ?h i)" by (rule fit_pairing)
  have "0 \<le> (\<Sum>i < k. ?h i)" using tm by (intro sum_nonneg) simp
  with two show "0 \<le> ?S" by simp
  have "(\<Sum>i < k. ?h i) \<le> (\<Sum>i < k. D * \<bar>2 * int i - int k + 1\<bar>)"
    using tm by (intro sum_mono) simp
  also have "\<dots> = D * (\<Sum>i < k. \<bar>2 * int i - int k + 1\<bar>)" by (simp add: sum_distrib_left)
  finally have h: "2 * ?S \<le> D * (\<Sum>i < k. \<bar>2 * int i - int k + 1\<bar>)" using two by simp
  show "4 * ?S \<le> D * (int k * int k)"
  proof (cases "k = 0")
    case True
    then show ?thesis by simp
  next
    case False
    then have D0: "0 \<le> D" using range by force
    have "2 * (2 * ?S) \<le> 2 * (D * (\<Sum>i < k. \<bar>2 * int i - int k + 1\<bar>))" using h by simp
    also have "\<dots> = D * (2 * (\<Sum>i < k. \<bar>2 * int i - int k + 1\<bar>))" by simp
    also have "\<dots> \<le> D * (int k * int k)"
      using D0 abs_offsets_bound [of k] by (intro mult_left_mono) simp_all
    finally show ?thesis by simp
  qed
qed


lemma squared_offsets_closed:
  "3 * (\<Sum>i < n. (2 * int i - c) * (2 * int i - c))
     = 2 * (int n - 1) * int n * (2 * int n - 1) - 6 * c * int n * (int n - 1) + 3 * int n * c * c"
  by (induction n) (simp_all add: algebra_simps)

lemma squared_offsets:
  "3 * (\<Sum>i < k. (2 * int i - int k + 1) * (2 * int i - int k + 1)) = (int k * int k - 1) * int k"
proof -
  have e: "(\<Sum>i < k. (2 * int i - int k + 1) * (2 * int i - int k + 1))
      = (\<Sum>i < k. (2 * int i - (int k - 1)) * (2 * int i - (int k - 1)))"
    by (intro sum.cong) (simp_all add: algebra_simps)
  show ?thesis
    unfolding e squared_offsets_closed [where n = k and c = "int k - 1"]
    by (simp add: algebra_simps)
qed

lemma slope_arithmetic:
  fixes K D S T :: int
  assumes K: "2 \<le> K" and D: "1 \<le> D" and D31: "D < 2 ^ 31" and b: "2 * K ^ 3 * D < 2 ^ 63"
    and T: "3 * T = (K * K - 1) * K" and S0: "0 \<le> S" and S4: "4 * S \<le> D * (K * K)"
  shows "take_bit 64 (take_bit 64 (take_bit 64 (K * K) - 1) * K) div 3 = T"
    and "0 < T"
    and "take_bit 32 (take_bit 64 (s64 (2 * K * S)) div T) = 2 * K * S div T"
    and "0 \<le> 2 * K * S div T" and "2 * K * S div T < 2 ^ 32"
proof -
  have K0: "0 < K" "1 \<le> K" using K by simp_all
  have K3: "K * K * K < 2 ^ 63"
  proof -
    have c: "K * K * K = K ^ 3" by (simp add: power3_eq_cube)
    have "0 \<le> K ^ 3" using K0 by simp
    then have "K ^ 3 * 1 \<le> K ^ 3 * D" using D by (intro mult_left_mono) simp_all
    then show ?thesis unfolding c using b \<open>0 \<le> K ^ 3\<close> by linarith
  qed
  have K2: "K * K \<le> K * K * K" using K0 by (simp add: mult_le_cancel_left1)
  have "2 * 2 \<le> K * K" using K by (intro mult_mono) simp_all
  then have sq: "3 \<le> K * K - 1" by simp
  have T3: "0 < (K * K - 1) * K" using sq K0 by (intro mult_pos_pos) simp_all
  with T show T0: "0 < T" by simp
  have le3: "(K * K - 1) * K \<le> K * K * K" using K0 by (simp add: algebra_simps)
  have e1: "take_bit 64 (K * K) = K * K"
    using K2 K3 sq by (intro take_bit_id) simp_all
  have e2: "take_bit 64 (K * K - 1) = K * K - 1"
    using K2 K3 sq by (intro take_bit_id) simp_all
  have e3: "take_bit 64 ((K * K - 1) * K) = 3 * T"
    unfolding T using T3 le3 K3 by (intro take_bit_id) simp_all
  show "take_bit 64 (take_bit 64 (take_bit 64 (K * K) - 1) * K) div 3 = T"
    unfolding e1 e2 e3 by simp
  have P0: "0 \<le> 2 * K * S" using K0 S0 by simp
  have "2 * (2 * K * S) = K * (4 * S)" by simp
  also have "\<dots> \<le> K * (D * (K * K))" using S4 K0 by (intro mult_left_mono) simp_all
  also have "\<dots> = K ^ 3 * D" by (simp add: power3_eq_cube)
  finally have P2: "2 * (2 * K * S) \<le> K ^ 3 * D" .
  have KD0: "0 \<le> K ^ 3 * D" using K0 D by simp
  have P: "2 * K * S < 2 ^ 63" using P2 P0 KD0 b by linarith
  have q1: "s64 (2 * K * S) = 2 * K * S" using P0 P by (intro s64_id) simp_all
  have q2: "take_bit 64 (2 * K * S) = 2 * K * S" using P0 P by (intro take_bit_id) simp_all
  show Q0: "0 \<le> 2 * K * S div T" using P0 T0 by (simp add: pos_imp_zdiv_nonneg_iff)
  have "4 * (D * K) \<le> (K * K) * (D * K)"
    using \<open>2 * 2 \<le> K * K\<close> D K0 by (intro mult_right_mono) simp_all
  then have KK: "4 * (K * D) \<le> K ^ 3 * D" by (simp add: power3_eq_cube algebra_simps)
  have "12 * (K * S) = 3 * (K * (4 * S))" by simp
  also have "\<dots> \<le> 3 * (K * (D * (K * K)))"
    using S4 K0 by (intro mult_left_mono) simp_all
  also have "\<dots> = 3 * (K ^ 3 * D)" by (simp add: power3_eq_cube)
  also have "\<dots> \<le> 4 * (K ^ 3 * D) - 4 * (K * D)" using KK by linarith
  also have "\<dots> = 4 * D * ((K * K - 1) * K)" by (simp add: power3_eq_cube algebra_simps)
  also have "\<dots> = 12 * (D * T)" unfolding T [symmetric] by simp
  finally have "K * S \<le> D * T" by simp
  then have "2 * K * S \<le> (2 * D) * T" by simp
  then have "2 * K * S div T \<le> (2 * D) * T div T" by (rule zdiv_mono1) (rule T0)
  then have Q1: "2 * K * S div T \<le> 2 * D" using T0 by simp
  then show Q2: "2 * K * S div T < 2 ^ 32" using D31 by simp
  show "take_bit 32 (take_bit 64 (s64 (2 * K * S)) div T) = 2 * K * S div T"
    unfolding q1 q2 using Q0 Q2 by (intro take_bit_id) simp_all
qed


lemma sum_positions: "2 * (\<Sum>i < k. real i) = real k * (real k - 1)"
  by (induction k) (simp_all add: algebra_simps)

lemma centred_position:
  assumes "0 < k"
  shows "real i - (\<Sum>i < k. real i) / real k = real_of_int (2 * int i - int k + 1) / 2"
proof -
  have "(\<Sum>i < k. real i) = real k * (real k - 1) / 2" using sum_positions [of k] by simp
  then have "(\<Sum>i < k. real i) / real k = (real k - 1) / 2" using assms by simp
  then show ?thesis by (simp add: field_simps)
qed

lemma sum_offsets: "(\<Sum>i < k. 2 * int i - int k + 1) = 0"
proof -
  have "(\<Sum>i < n. 2 * int i - c) = int n * (int n - 1) - int n * c" for n c
    by (induction n) (simp_all add: algebra_simps)
  from this [where n = k and c = "int k - 1"] show ?thesis by (simp add: algebra_simps)
qed

lemma centred_sum:
  fixes c f :: "nat \<Rightarrow> real"
  shows "(\<Sum>i < k. c i / 2 * (f i - m)) = (\<Sum>i < k. f i * c i) / 2 - m / 2 * (\<Sum>i < k. c i)"
proof -
  have "(\<Sum>i < k. c i / 2 * (f i - m)) = (\<Sum>i < k. f i * c i / 2 - m / 2 * c i)"
    by (intro sum.cong) (simp_all add: field_simps)
  also have "\<dots> = (\<Sum>i < k. f i * c i / 2) - (\<Sum>i < k. m / 2 * c i)"
    by (rule sum_subtractf)
  also have "\<dots> = (\<Sum>i < k. f i * c i) / 2 - m / 2 * (\<Sum>i < k. c i)"
    by (simp only: sum_divide_distrib sum_distrib_left)
  finally show ?thesis .
qed

lemma least_squares_slope_sums:
  fixes T :: int
  assumes k: "0 < length ts" and T: "3 * T = (int (length ts) * int (length ts) - 1) * int (length ts)"
    and T0: "0 < T"
  shows "least_squares_slope ts
     = 2 * (\<Sum>i < length ts. ts ! i * real_of_int (2 * int i - int (length ts) + 1)) / real_of_int T"
proof -
  let ?k = "length ts"
  let ?t = "\<lambda>i. real_of_int (2 * int i - int ?k + 1)"
  let ?m = "(\<Sum>i < ?k. ts ! i) / real ?k"
  have c: "real i - (\<Sum>i < ?k. real i) / real ?k = ?t i / 2" for i
    using k by (rule centred_position)
  have z: "(\<Sum>i < ?k. ?t i) = 0"
    using sum_offsets [of ?k] by (simp only: of_int_sum [symmetric] of_int_0)
  have "(\<Sum>i < ?k. ?t i / 2 * (ts ! i - ?m))
      = (\<Sum>i < ?k. ts ! i * ?t i) / 2 - ?m / 2 * (\<Sum>i < ?k. ?t i)"
    by (rule centred_sum)
  then have num: "(\<Sum>i < ?k. ?t i / 2 * (ts ! i - ?m)) = (\<Sum>i < ?k. ts ! i * ?t i) / 2"
    unfolding z by simp
  have "3 * (\<Sum>i < ?k. ?t i * ?t i) = real_of_int (3 * T)"
    unfolding T squared_offsets [symmetric] by simp
  then have sq: "(\<Sum>i < ?k. ?t i * ?t i) = real_of_int T" by simp
  have "(\<Sum>i < ?k. ?t i / 2 * (?t i / 2)) = (\<Sum>i < ?k. ?t i * ?t i) / 4"
    by (simp add: sum_divide_distrib)
  then have den: "(\<Sum>i < ?k. ?t i / 2 * (?t i / 2)) = real_of_int T / 4" unfolding sq .
  have "least_squares_slope ts = ((\<Sum>i < ?k. ts ! i * ?t i) / 2) / (real_of_int T / 4)"
    unfolding least_squares_slope_def Let_def c num den ..
  then show ?thesis using T0 by (simp add: field_simps)
qed


lemma advance_index_duration:
  fixes D S T :: int
  assumes fit: "fit_sums k (timestamp_array st) = (sx, S)"
    and count: "timestamp_count st = k" and k2: "2 \<le> k" and D: "1 \<le> D" and D31: "D < 2 ^ 31"
    and b: "2 * int k ^ 3 * D < 2 ^ 63"
    and T: "3 * T = (int k * int k - 1) * int k" and S0: "0 \<le> S"
    and S4: "4 * S \<le> D * (int k * int k)" and k31: "int k < 2 ^ 31"
    and mbc: "0 < major_block_count (t_header st)"
    and cur: "current_major_block (t_header st) < length (t_index st)"
  shows "\<exists>st'. advance_index fp st = Inr st' \<and>
           uint (duration (t_index st' ! current_major_block (t_header st))) = 2 * int k * S div T"
proof -
  define q where "q = 2 * int k * S div T"
  have K: "2 \<le> int k" using k2 by simp
  note ar = slope_arithmetic [OF K D D31 b T S0 S4, folded q_def]
  have k32: "take_bit 32 (2 * int k) = 2 * int k"
    using k31 by (intro take_bit_id) simp_all
  have "uint (word_of_int q :: u32) = take_bit 32 q"
    by (simp add: uint_word_of_int take_bit_eq_mod)
  also have "\<dots> = q" using ar(4,5) by (intro take_bit_id) simp_all
  finally have u: "uint (word_of_int q :: u32) = q" .
  have nz: "T \<noteq> 0" "k \<noteq> 0" "major_block_count (t_header st) \<noteq> 0"
    using ar(2) k2 mbc by simp_all
  show ?thesis
    unfolding advance_index_def count q_def [symmetric]
    using nz cur by (simp add: Let_def fit ar(1) k32 ar(3) u)
qed


text \<open>
  C3, amended: for a major block of \<open>k\<close> minor blocks, \<open>k\<close> at least 2, with strictly
  increasing timestamps, the duration recorded into the data index by
  \<open>advance_index\<close> is \<open>k\<close> times the slope of the least-squares straight line through
  the timestamps, rounded down: it is within 1 microsecond of the duration of \<open>k\<close>
  minor blocks on the fitted line (not of the end-point estimate
  \<open>(t\<^sub>k - t\<^sub>1) * k / (k - 1)\<close>).  The block spans less than \<open>2 ^ 31\<close> microseconds (the
  relative timestamps are stored in an \<open>int\<close>) and \<open>2 * k ^ 3 * (t\<^sub>k - t\<^sub>1)\<close> is below
  \<open>2 ^ 63\<close> (the sums of the fit are 64-bit).
\<close>

theorem advance_index_least_squares:
  assumes i0: "timestamp_index st = 0" and count: "timestamp_count st = k"
    and len: "length (timestamp_array st) = k" and lt: "length tss = k" and k2: "2 \<le> k"
    and incr: "sorted_wrt (<) (map uint tss)"
    and span: "uint (last tss) - uint (hd tss) < 2 ^ 31"
    and b: "2 * int k ^ 3 * (uint (last tss) - uint (hd tss)) < 2 ^ 63"
    and mbc: "0 < major_block_count (t_header st)"
    and cur: "current_major_block (t_header st) < length (t_index st)"
  shows "index_major_block fp block tss st
     = Inr \<lfloor>real k * least_squares_slope (map (\<lambda>t. real_of_int (uint t)) tss)\<rfloor>"
proof -
  let ?s = "foldl (\<lambda>s ts. index_minor_block block ts s) st tss"
  let ?x = "\<lambda>i. uint (tss ! i) - uint (tss ! 0)"
  let ?t = "\<lambda>i. 2 * int i - int k + 1"
  define D where "D = uint (last tss) - uint (hd tss)"
  define S where "S = (\<Sum>i < k. ?x i * ?t i)"
  define T where "T = (\<Sum>i < k. ?t i * ?t i)"
  have ne: "tss \<noteq> []" using lt k2 by auto
  have hd: "hd tss = tss ! 0" using ne by (simp add: hd_conv_nth)
  have last: "last tss = tss ! (k - 1)" using ne lt by (simp add: last_conv_nth)
  have less: "uint (tss ! i) < uint (tss ! j)" if "i < j" "j < k" for i j
    using sorted_wrt_nth_less [OF incr, of i j] that lt by simp
  have mono: "uint (tss ! i) \<le> uint (tss ! j)" if "i \<le> j" "j < k" for i j
    using less [of i j] that by (cases "i = j") simp_all
  have Dx: "D = ?x (k - 1)" by (simp add: D_def hd last)
  have D1: "1 \<le> D" using less [of 0 "k - 1"] k2 by (simp add: Dx)
  have D31: "D < 2 ^ 31" using span by (simp add: D_def)
  have b': "2 * int k ^ 3 * D < 2 ^ 63" using b by (simp add: D_def)
  have range: "\<forall>i < k. 0 \<le> ?x i \<and> ?x i \<le> D"
    using mono [of 0] mono [of _ "k - 1"] by (auto simp add: Dx)
  have rel: "\<forall>i < k. uint (tss ! 0) \<le> uint (tss ! i) \<and> uint (tss ! i) - uint (tss ! 0) < 2 ^ 31"
    using range D31 by auto
  have inv: "\<forall>i < k. timestamp_array ?s ! i = ?x i" "t_header ?s = t_header st"
    "timestamp_count ?s = timestamp_count st" "length (t_index ?s) = length (t_index st)"
    using indexed_timestamps [OF i0 len lt rel le_refl, of block] lt by simp_all
  have K: "2 \<le> int k" using k2 by simp
  have K1: "1 \<le> int k" "0 \<le> int k" using k2 by simp_all
  have c3: "int k ^ 3 * 1 \<le> int k ^ 3 * D" using D1 by (intro mult_left_mono) simp_all
  have e3: "2 * int k ^ 3 * D = 2 * (int k ^ 3 * D)" by simp
  have n3: "0 \<le> int k ^ 3 * D" using D1 by simp
  have kD: "int k ^ 3 * D < 2 ^ 63" using b' n3 unfolding e3 by linarith
  have k3: "int k ^ 3 < 2 ^ 63" using c3 kD by linarith
  have k31: "int k < 2 ^ 31"
  proof (rule ccontr)
    assume "\<not> int k < 2 ^ 31"
    then have "(2 ^ 31) ^ 3 \<le> int k ^ 3" by (intro power_mono) simp_all
    with k3 show False by simp
  qed
  have kk: "int k * int k \<le> int k ^ 3"
    using K1 by (simp add: power3_eq_cube mult_le_cancel_left1)
  have "D * (int k * int k) \<le> D * int k ^ 3"
    using kk D1 by (intro mult_left_mono) simp_all
  then have b2: "D * (int k * int k) < 2 ^ 63" using kD
    by (simp add: mult.commute)
  have arr: "\<forall>i < k. 0 \<le> timestamp_array ?s ! i \<and> timestamp_array ?s ! i \<le> D"
    using range inv(1) by simp
  have sums: "(\<Sum>i < k. timestamp_array ?s ! i * ?t i) = S"
    unfolding S_def using inv(1) by (intro sum.cong) simp_all
  have fit: "fit_sums k (timestamp_array ?s) = (\<Sum>i < k. timestamp_array ?s ! i, S)"
    unfolding fit_sums_def using fit_sums_step [OF k31 b2 arr le_refl] sums by simp
  have mono_x: "\<forall>i j. i \<le> j \<and> j < k \<longrightarrow> ?x i \<le> ?x j"
    using mono by simp
  have S0: "0 \<le> S" and S4: "4 * S \<le> D * (int k * int k)"
    unfolding S_def using fit_slope_bounds [OF mono_x range] by simp_all
  have T3: "3 * T = (int k * int k - 1) * int k"
    unfolding T_def by (rule squared_offsets)
  have "2 * 2 \<le> int k * int k" using K by (intro mult_mono) simp_all
  then have "0 < (int k * int k - 1) * int k" using K1 by (intro mult_pos_pos) simp_all
  then have T0: "0 < T" using T3 by simp
  obtain st' where st': "advance_index fp ?s = Inr st'"
    "uint (duration (t_index st' ! current_major_block (t_header ?s))) = 2 * int k * S div T"
    using advance_index_duration [OF fit _ k2 D1 D31 b' T3 S0 S4 k31, of fp]
      count mbc cur inv(2,3,4) by auto
  have r: "index_major_block fp block tss st = Inr (2 * int k * S div T)"
    unfolding index_major_block_def st'(1) using st'(2) inv(2) by simp
  let ?ts = "map (\<lambda>t. real_of_int (uint t)) tss"
  have lk: "length ?ts = k" using lt by simp
  have z: "(\<Sum>i < k. ?t i) = 0" by (rule sum_offsets)
  have gen: "(\<Sum>i < k. a i + c * b i) = (\<Sum>i < k. a i) + c * (\<Sum>i < k. b i)"
    for a b :: "nat \<Rightarrow> real" and c
    by (simp add: sum.distrib sum_distrib_left)
  have "(\<Sum>i < k. ?ts ! i * real_of_int (?t i))
      = (\<Sum>i < k. real_of_int (?x i * ?t i) + real_of_int (uint (tss ! 0)) * real_of_int (?t i))"
    using lt by (intro sum.cong) (simp_all add: algebra_simps)
  also have "\<dots> = (\<Sum>i < k. real_of_int (?x i * ?t i))
      + real_of_int (uint (tss ! 0)) * (\<Sum>i < k. real_of_int (?t i))"
    by (rule gen)
  also have "\<dots> = real_of_int S + real_of_int (uint (tss ! 0)) * real_of_int (\<Sum>i < k. ?t i)"
    unfolding S_def by (simp only: of_int_sum)
  finally have sr: "(\<Sum>i < k. ?ts ! i * real_of_int (?t i)) = real_of_int S"
    unfolding z by simp
  have "least_squares_slope ?ts
      = 2 * (\<Sum>i < length ?ts. ?ts ! i * real_of_int (2 * int i - int (length ?ts) + 1)) / real_of_int T"
  proof (rule least_squares_slope_sums)
    show "0 < length ?ts" using ne by simp
    show "3 * T = (int (length ?ts) * int (length ?ts) - 1) * int (length ?ts)"
      unfolding lk by (rule T3)
    show "0 < T" by (rule T0)
  qed
  then have "least_squares_slope ?ts = 2 * real_of_int S / real_of_int T"
    unfolding lk sr .
  then have "real k * least_squares_slope ?ts = real_of_int (2 * int k * S) / real_of_int T"
    by simp
  then have "\<lfloor>real k * least_squares_slope ?ts\<rfloor> = 2 * int k * S div T"
    by (simp only: floor_divide_of_int_eq)
  with r show ?thesis by simp
qed


lemma example_slope:
  "least_squares_slope (map (\<lambda>t. real_of_int (uint t)) [2100000, 2100001, 2100002, 2101000 :: u64])
     = 3001 / 10"
  by (simp add: least_squares_slope_def Let_def)

theorem advance_index_least_squares_witness:
  "index_major_block double_ops [example_frame 100]
     [2100000, 2100001, 2100002, 2101000] example_fit
     = Inr \<lfloor>real 4 * least_squares_slope
         (map (\<lambda>t. real_of_int (uint t)) [2100000, 2100001, 2100002, 2101000 :: u64])\<rfloor> \<and>
   \<lfloor>real 4 * least_squares_slope
         (map (\<lambda>t. real_of_int (uint t)) [2100000, 2100001, 2100002, 2101000 :: u64])\<rfloor> = 1200"
proof -
  have f: "\<lfloor>real 4 * least_squares_slope
      (map (\<lambda>t. real_of_int (uint t)) [2100000, 2100001, 2100002, 2101000 :: u64])\<rfloor> = 1200"
    unfolding example_slope by (simp add: floor_eq_iff)
  have "index_major_block double_ops [example_frame 100]
     [2100000, 2100001, 2100002, 2101000] example_fit
     = Inr \<lfloor>real 4 * least_squares_slope
         (map (\<lambda>t. real_of_int (uint t)) [2100000, 2100001, 2100002, 2101000 :: u64])\<rfloor>"
    by (rule advance_index_least_squares)
      (simp_all add: example_fit_def example_header_def example_index_def)
  with f show ?thesis by simp
qed


section \<open>The decimation of a column\<close>















end
